theory Spec2Isabelle
  imports Complex_Main "HOL-Library.Word" "HOL-Library.Sublist"
    "HOL-Library.Char_ord" "HOL-Library.List_Lexorder"
begin

section \<open>Python numbers\<close>

text \<open>
  Python integers are unbounded and are modelled by \<^typ>\<open>int\<close>.  A Python float is an
  IEEE 754 binary64 number; it is modelled by the rational number it denotes, and every
  operation that produces a float rounds its exact result to the nearest binary64 value,
  ties to even (\<open>fl\<close> below).  The floats of \<open>analyze_screenshots.py\<close> are zero or lie
  between \<open>10\<^sup>-\<^sup>4\<close> and 400, so overflow, subnormal numbers, infinities and NaN do not
  occur and are not modelled.
\<close>

text \<open>\<open>int.bit_length()\<close>: the number of binary digits of a positive integer.\<close>

function bit_length :: "int \<Rightarrow> int" where
  "bit_length n = (if n \<le> 0 then 0 else 1 + bit_length (n div 2))"
  by pat_completeness auto
termination
  by (relation "measure nat") auto

declare bit_length.simps [simp del]

text \<open>
  Rounding a rational to an integer, ties to the even neighbour: what Python's
  one-argument \<open>round(x)\<close> does on a float, and what IEEE 754 does to a significand.
\<close>

definition round_half_even :: "rat \<Rightarrow> int" where
  "round_half_even y =
     (let f = \<lfloor>y\<rfloor>; d = y - of_int f
      in if d < 1 / 2 then f else if 1 / 2 < d then f + 1 else if even f then f else f + 1)"

text \<open>The binary exponent \<open>e\<close> of a positive rational: \<open>2\<^sup>e \<le> x < 2\<^sup>e\<^sup>+\<^sup>1\<close>.\<close>

definition exponent :: "rat \<Rightarrow> int" where
  "exponent x =
     (let (p, q) = quotient_of x;
          g = bit_length p - bit_length q
      in if 2 powi g \<le> x then g else g - 1)"

text \<open>
  Rounding to binary64: 53 significant bits, so the spacing of the floats next to \<open>x\<close> is
  \<open>2\<^sup>e\<^sup>-\<^sup>5\<^sup>2\<close> for the exponent \<open>e\<close> of \<open>x\<close>.
\<close>

definition fl :: "rat \<Rightarrow> rat" where
  "fl x =
     (if x = 0 then 0
      else if 0 < x then
        (let u = 2 powi (exponent x - 52) in of_int (round_half_even (x / u)) * u)
      else
        (let u = 2 powi (exponent (- x) - 52) in - (of_int (round_half_even (- x / u)) * u)))"

text \<open>
  A float literal denotes the double nearest to its decimal value; \<open>a / b\<close> on two integers
  is the correctly rounded quotient; a product with a float operand is the correctly rounded
  product.  Comparing an integer with a float compares the exact values.
\<close>

definition literal :: "rat \<Rightarrow> rat" where
  "literal d = fl d"

definition truediv :: "int \<Rightarrow> int \<Rightarrow> rat" where
  "truediv a b = fl (of_int a / of_int b)"

definition float_mul :: "rat \<Rightarrow> rat \<Rightarrow> rat" where
  "float_mul a b = fl (a * b)"

text \<open>
  Two-argument \<open>round(x, ndigits)\<close> on a float: the exact value of \<open>x\<close> is rounded to
  \<open>ndigits\<close> decimals, ties to even, and the decimal result is converted back to the nearest
  double.  On the integer \<open>0\<close> (the only integer the program passes) the result is \<open>0\<close>.
\<close>

definition round_ndigits :: "rat \<Rightarrow> nat \<Rightarrow> rat" where
  "round_ndigits x ndigits = fl (of_int (round_half_even (x * 10 ^ ndigits)) / 10 ^ ndigits)"

section \<open>Images\<close>

text \<open>
  The image library is outside the repository.  What \<open>analyze_image\<close> uses of it:
  \<open>Image.open\<close>, which raises on a file it cannot decode; \<open>img.size\<close>; and
  \<open>img.getpixel((x, y))\<close>, which returns a tuple of 8-bit band values for a multi-band
  image (RGB, RGBA, LA, ...), a plain number for a single-band image (an \<open>int\<close> in modes
  L, P, 1, I; a \<open>float\<close> in mode F), and may raise when the pixel data, which is read
  lazily, turns out to be truncated or undecodable.  An exception is represented by the text
  \<open>str(e)\<close> that \<open>analyze_image\<close> reports.
\<close>

datatype pixel = Number_int int | Number_float rat | Bands "8 word list"

record image =
  width :: nat
  height :: nat
  getpixel :: "int \<times> int \<Rightarrow> string + pixel"

section \<open>The classifier: \<open>analyze_image\<close>\<close>

text \<open>
  The local variables of the sampling loop.  \<open>n_blue\<close> and \<open>n_total\<close> are the locals
  \<open>blue_pixels\<close> and \<open>total_pixels\<close> (the names are kept for the keys of the returned
  dictionary); \<open>avg_r\<close>, \<open>avg_g\<close> and \<open>avg_b\<close> hold the running sums, as in the source.
\<close>

record counters =
  n_blue :: int
  n_total :: int
  avg_r :: int
  avg_g :: int
  avg_b :: int

text \<open>The success dictionary returned by \<open>analyze_image\<close>.\<close>

record color_stats =
  blue_pixels :: int
  total_pixels :: int
  blue_ratio :: rat
  avg_color :: "int \<times> int \<times> int"
  has_flooding :: bool

text \<open>\<open>{"error": str(e)}\<close> or the success dictionary.\<close>

datatype analysis = Error string | Stats color_stats

text \<open>Line 40: \<open>b > 100 and b > r * 1.3 and b > g * 1.1\<close>.\<close>

definition flood_color :: "int \<Rightarrow> int \<Rightarrow> int \<Rightarrow> bool" where
  "flood_color r g b \<longleftrightarrow>
     b > 100 \<and> of_int b > float_mul (of_int r) (literal (13 / 10))
             \<and> of_int b > float_mul (of_int g) (literal (11 / 10))"

text \<open>\<open>range(a, b)\<close>.\<close>

definition range_py :: "int \<Rightarrow> int \<Rightarrow> int list" where
  "range_py a b = [a..b - 1]"

text \<open>
  A \<open>for\<close> loop whose body may raise: the first exception ends the loop and is the
  result.
\<close>

fun for_each :: "('s \<Rightarrow> 'a \<Rightarrow> string + 's) \<Rightarrow> 'a list \<Rightarrow> 's \<Rightarrow> string + 's" where
  "for_each body [] s = Inr s"
| "for_each body (a # as) s =
     (case body s a of Inl e \<Rightarrow> Inl e | Inr s' \<Rightarrow> for_each body as s')"

text \<open>Lines 29 to 41, the body of the inner loop.\<close>

definition visit :: "image \<Rightarrow> counters \<Rightarrow> int \<times> int \<Rightarrow> string + counters" where
  "visit img c xy =
     (case xy of (x, y) \<Rightarrow>
        if 0 \<le> x \<and> x < int (width img) \<and> 0 \<le> y \<and> y < int (height img) then
          (case getpixel img (x, y) of
             Inl e \<Rightarrow> Inl e
           | Inr (Number_int v) \<Rightarrow> Inl ''object of type 'int' has no len()''
           | Inr (Number_float v) \<Rightarrow> Inl ''object of type 'float' has no len()''
           | Inr (Bands p) \<Rightarrow>
               if length p \<ge> 3 then
                 (let r = uint (p ! 0); g = uint (p ! 1); b = uint (p ! 2);
                      c' = c\<lparr>avg_r := avg_r c + r, avg_g := avg_g c + g,
                              avg_b := avg_b c + b, n_total := n_total c + 1\<rparr>
                  in Inr (if flood_color r g b then c'\<lparr>n_blue := n_blue c' + 1\<rparr> else c'))
               else Inr c)
        else Inr c)"

text \<open>Lines 16 to 41: the two nested loops over the 100 by 100 window at the centre.\<close>

definition scan :: "image \<Rightarrow> string + counters" where
  "scan img =
     (let center_x = int (width img) div 2; center_y = int (height img) div 2;
          box_size = 50
      in for_each
           (\<lambda>c x. for_each (\<lambda>c y. visit img c (x, y))
                     (range_py (center_y - box_size) (center_y + box_size)) c)
           (range_py (center_x - box_size) (center_x + box_size))
           \<lparr>n_blue = 0, n_total = 0, avg_r = 0, avg_g = 0, avg_b = 0\<rparr>)"

text \<open>
  Lines 43 to 49: the local \<open>blue_ratio\<close> before it is rounded, and the three averages.
  With no pixel counted the sums are still the integers they started as.
\<close>

definition ratio :: "counters \<Rightarrow> rat" where
  "ratio c = (if n_total c > 0 then truediv (n_blue c) (n_total c) else 0)"

definition average :: "counters \<Rightarrow> int \<Rightarrow> rat" where
  "average c s = (if n_total c > 0 then truediv s (n_total c) else of_int s)"

text \<open>Lines 51 to 57: the returned dictionary.\<close>

definition summary :: "counters \<Rightarrow> color_stats" where
  "summary c =
     \<lparr>blue_pixels = n_blue c,
      total_pixels = n_total c,
      blue_ratio = round_ndigits (ratio c) 4,
      avg_color = (round_half_even (average c (avg_r c)),
                   round_half_even (average c (avg_g c)),
                   round_half_even (average c (avg_b c))),
      has_flooding = (ratio c > literal (1 / 10))\<rparr>"

text \<open>
  \<open>analyze_image(filepath)\<close>.  The argument is what \<open>Image.open(filepath)\<close> yields:
  the text of the exception it raises, or the image.  The whole body is inside
  \<open>try ... except Exception as e: return {"error": str(e)}\<close>.
\<close>

definition analyze_image :: "string + image \<Rightarrow> analysis" where
  "analyze_image opened =
     (case opened of
        Inl e \<Rightarrow> Error e
      | Inr img \<Rightarrow> (case scan img of Inl e \<Rightarrow> Error e | Inr c \<Rightarrow> Stats (summary c)))"

section \<open>Vocabulary for the properties\<close>

text \<open>
  The bounds test of line 29, and the sample window: the coordinates that the two loops
  visit and that pass the test, in the order in which the loops visit them.
\<close>

definition inside :: "image \<Rightarrow> int \<times> int \<Rightarrow> bool" where
  "inside img xy =
     (case xy of (x, y) \<Rightarrow> 0 \<le> x \<and> x < int (width img) \<and> 0 \<le> y \<and> y < int (height img))"

definition window :: "image \<Rightarrow> (int \<times> int) list" where
  "window img =
     (let center_x = int (width img) div 2; center_y = int (height img) div 2
      in filter (inside img)
           (List.product (range_py (center_x - 50) (center_x + 50))
                         (range_py (center_y - 50) (center_y + 50))))"

text \<open>The pixels that line 31 lets through: a tuple of at least three bands.\<close>

definition has_rgb :: "image \<Rightarrow> int \<times> int \<Rightarrow> bool" where
  "has_rgb img xy = (case getpixel img xy of Inr (Bands p) \<Rightarrow> 3 \<le> length p | _ \<Rightarrow> False)"

text \<open>The window coordinates whose pixel is counted.\<close>

definition counted :: "image \<Rightarrow> (int \<times> int) list" where
  "counted img = filter (has_rgb img) (window img)"

text \<open>Band \<open>i\<close> of the pixel at a coordinate, as the integer \<open>pixel[i]\<close>.\<close>

definition channel :: "image \<Rightarrow> nat \<Rightarrow> int \<times> int \<Rightarrow> int" where
  "channel img i xy = (case getpixel img xy of Inr (Bands p) \<Rightarrow> uint (p ! i) | _ \<Rightarrow> 0)"

text \<open>The test of line 40 on the pixel at a coordinate.\<close>

definition is_flood :: "image \<Rightarrow> int \<times> int \<Rightarrow> bool" where
  "is_flood img xy = flood_color (channel img 0 xy) (channel img 1 xy) (channel img 2 xy)"

text \<open>The counters after counting the pixels at the coordinates \<open>as\<close>, starting from \<open>c\<close>.\<close>

definition tally :: "image \<Rightarrow> counters \<Rightarrow> (int \<times> int) list \<Rightarrow> counters" where
  "tally img c as =
     \<lparr>n_blue = n_blue c + int (length (filter (is_flood img) as)),
      n_total = n_total c + int (length as),
      avg_r = avg_r c + sum_list (map (channel img 0) as),
      avg_g = avg_g c + sum_list (map (channel img 1) as),
      avg_b = avg_b c + sum_list (map (channel img 2) as)\<rparr>"

text \<open>
  The exact mean of band \<open>i\<close> over the counted pixels: the sum of the band values
  divided by their number, as a rational.
\<close>

definition mean :: "image \<Rightarrow> nat \<Rightarrow> rat" where
  "mean img i = of_int (sum_list (map (channel img i) (counted img))) / of_int (int (length (counted img)))"

section \<open>Strings\<close>

text \<open>
  The \<open>str\<close> methods used by \<open>main\<close>.  \<open>s.replace(old, new)\<close> replaces every
  non-overlapping occurrence of \<open>old\<close>, scanning from the left.
\<close>

fun replace :: "string \<Rightarrow> string \<Rightarrow> string \<Rightarrow> string" where
  "replace old new [] = (if old = [] then new else [])"
| "replace old new (c # cs) =
     (if old = [] then new @ c # replace old new cs
      else if prefix old (c # cs) then new @ replace old new (drop (length old - 1) cs)
      else c # replace old new cs)"

definition startswith :: "string \<Rightarrow> string \<Rightarrow> bool" where
  "startswith s p = prefix p s"

text \<open>\<open>s.rsplit(sep, 1)\<close> for a one-character separator: split at its last occurrence.\<close>

definition rsplit1 :: "string \<Rightarrow> char \<Rightarrow> string list" where
  "rsplit1 s sep =
     (if sep \<in> set s
      then [rev (tl (dropWhile (\<lambda>c. c \<noteq> sep) (rev s))), rev (takeWhile (\<lambda>c. c \<noteq> sep) (rev s))]
      else [s])"

definition lstrip :: "string \<Rightarrow> string \<Rightarrow> string" where
  "lstrip s chars = dropWhile (\<lambda>c. c \<in> set chars) s"

text \<open>
  \<open>int(s)\<close> on a string: surrounding whitespace is dropped, then an optional sign, then
  decimal digits, where single underscores may separate digits.  Anything else raises
  \<open>ValueError\<close>, here \<open>None\<close>.
\<close>

definition is_digit :: "char \<Rightarrow> bool" where
  "is_digit c \<longleftrightarrow> CHR ''0'' \<le> c \<and> c \<le> CHR ''9''"

definition is_space :: "char \<Rightarrow> bool" where
  "is_space c \<longleftrightarrow> c \<in> set [CHR '' '', CHR 0x09, CHR 0x0A, CHR 0x0B, CHR 0x0C, CHR 0x0D,
                             CHR 0x1C, CHR 0x1D, CHR 0x1E, CHR 0x1F]"

definition strip :: "string \<Rightarrow> string" where
  "strip s = rev (dropWhile is_space (rev (dropWhile is_space s)))"

fun digits :: "string \<Rightarrow> int \<Rightarrow> int option" where
  "digits [] acc = Some acc"
| "digits (c # cs) acc =
     (if is_digit c then digits cs (10 * acc + (of_char c - of_char CHR ''0''))
      else if c = CHR ''_'' \<and> cs \<noteq> [] \<and> is_digit (hd cs) then digits cs acc
      else None)"

definition unsigned :: "string \<Rightarrow> int option" where
  "unsigned s = (case s of [] \<Rightarrow> None | c # cs \<Rightarrow> if is_digit c then digits s 0 else None)"

definition int_py :: "string \<Rightarrow> int option" where
  "int_py s =
     (case strip s of
        [] \<Rightarrow> None
      | c # cs \<Rightarrow>
          if c = CHR ''-'' then map_option uminus (unsigned cs)
          else if c = CHR ''+'' then unsigned cs
          else unsigned (c # cs))"

section \<open>The batch: \<open>main\<close>\<close>

text \<open>
  The screenshot directory as \<open>main\<close> sees it: the names \<open>os.listdir\<close> returns, in the
  order it returns them, and for each name what \<open>Image.open\<close> yields on that path (the
  text of the exception it raises, or the image).
\<close>

record directory =
  listdir :: "string list"
  Image_open :: "string \<Rightarrow> string + image"

text \<open>The exceptions \<open>main\<close> can raise while it takes a file name apart; nothing catches them.\<close>

datatype exception = IndexError | ValueError

text \<open>Lines 79 to 81: \<open>zoom_Global_Full_+0000ft.png\<close> gives the test name and the water level.\<close>

definition zoom_parse :: "string \<Rightarrow> exception + string \<times> int" where
  "zoom_parse filename =
     (let parts = rsplit1 (replace ''.png'' [] (replace ''zoom_'' [] filename)) CHR ''_''
      in if length parts < 2 then Inl IndexError
         else (case int_py (replace ''+'' [] (replace ''ft'' [] (parts ! 1))) of
                 None \<Rightarrow> Inl ValueError
               | Some water_level \<Rightarrow> Inr (parts ! 0, water_level)))"

text \<open>Lines 120 to 123: \<open>elevation_-00050ft.png\<close> gives the elevation.\<close>

definition elevation_parse :: "string \<Rightarrow> exception + int" where
  "elevation_parse filename =
     (let elev_str = replace ''ft.png'' [] (replace ''elevation_'' [] filename);
          is_negative = startswith elev_str ''-'';
          stripped = lstrip (lstrip elev_str ''+-'') ''0'';
          elev_num = (if stripped = [] then ''0'' else stripped)
      in case int_py elev_num of
           None \<Rightarrow> Inl ValueError
         | Some n \<Rightarrow> Inr (n * (if is_negative then - 1 else 1)))"

text \<open>
  One entry of the list built in zoom mode: the two parsed fields and, merged into the same
  dictionary by \<open>**analysis\<close>, the keys of the analysis.
\<close>

record row =
  test_name :: string
  water_level_ft :: int
  merged :: analysis

text \<open>
  What \<open>main\<close> returns and dumps as JSON: a list of rows in zoom mode, a dictionary from
  elevation to analysis otherwise.  The dictionary is kept as the list of its items in
  insertion order; assigning to a key that is present replaces its value in place.
\<close>

datatype results = Rows "row list" | Dict "(int \<times> analysis) list"

fun setitem :: "('k \<times> 'v) list \<Rightarrow> 'k \<Rightarrow> 'v \<Rightarrow> ('k \<times> 'v) list" where
  "setitem [] k v = [(k, v)]"
| "setitem ((k', v') # kvs) k v = (if k' = k then (k, v) # kvs else (k', v') # setitem kvs k v)"

text \<open>
  The lines printed, one constructor for each \<open>print\<close> call of \<open>main\<close>, carrying the values
  that the call formats.
\<close>

datatype line =
    Analyzing_zoom nat
  | Zoom_header
  | Rule nat
  | Zoom_row string int rat bool
  | Zoom_error string int string
  | Zoom_saved string
  | No_screenshots
  | Analyzing_elevation nat
  | Elevation_header
  | Elevation_row int rat "int \<times> int \<times> int" bool
  | Elevation_error int string
  | Elevation_saved string

text \<open>
  A run of \<open>main\<close>: what it printed, the file it wrote (name and content) if it wrote one,
  and the value it returned or the exception that ended it.
\<close>

record run =
  stdout :: "line list"
  written :: "(string \<times> results) option"
  returned :: "exception + results"

text \<open>Lines 74 to 93, the loop over the zoom files.\<close>

fun zoom_loop :: "directory \<Rightarrow> string list \<Rightarrow> line list \<Rightarrow> row list
    \<Rightarrow> line list \<times> (exception + row list)" where
  "zoom_loop d [] out results = (out, Inr results)"
| "zoom_loop d (filename # rest) out results =
     (let a = analyze_image (Image_open d filename)
      in case zoom_parse filename of
           Inl e \<Rightarrow> (out, Inl e)
         | Inr (name, water_level) \<Rightarrow>
             zoom_loop d rest
               (out @ [case a of
                         Stats s \<Rightarrow> Zoom_row name water_level (blue_ratio s) (has_flooding s)
                       | Error e \<Rightarrow> Zoom_error name water_level e])
               (results @ [\<lparr>test_name = name, water_level_ft = water_level, merged = a\<rparr>]))"

text \<open>Lines 116 to 132, the loop over the elevation files.\<close>

fun elevation_loop :: "directory \<Rightarrow> string list \<Rightarrow> line list \<Rightarrow> (int \<times> analysis) list
    \<Rightarrow> line list \<times> (exception + (int \<times> analysis) list)" where
  "elevation_loop d [] out results = (out, Inr results)"
| "elevation_loop d (filename # rest) out results =
     (let a = analyze_image (Image_open d filename)
      in case elevation_parse filename of
           Inl e \<Rightarrow> (out, Inl e)
         | Inr elevation \<Rightarrow>
             elevation_loop d rest
               (out @ [case a of
                         Stats s \<Rightarrow> Elevation_row elevation (blue_ratio s) (avg_color s) (has_flooding s)
                       | Error e \<Rightarrow> Elevation_error elevation e])
               (setitem results elevation a))"

text \<open>
  Lines 66 and 105: \<open>sorted([f for f in os.listdir(SCREENSHOT_DIR) if f.startswith(p)])\<close>.
  \<open>sorted\<close> orders strings by code point, as the order on \<^typ>\<open>string\<close> does.
\<close>

definition matching :: "directory \<Rightarrow> string \<Rightarrow> string list" where
  "matching d p = sort (filter (\<lambda>f. startswith f p) (listdir d))"

text \<open>\<open>main()\<close>.\<close>

definition main :: "directory \<Rightarrow> run" where
  "main d =
     (let zoom_files = matching d ''zoom_''
      in if zoom_files \<noteq> [] then
           (case zoom_loop d zoom_files
                   [Analyzing_zoom (length zoom_files), Zoom_header, Rule 65] [] of
              (out, Inl e) \<Rightarrow> \<lparr>stdout = out, written = None, returned = Inl e\<rparr>
            | (out, Inr results) \<Rightarrow>
                \<lparr>stdout = out @ [Rule 65, Zoom_saved ''zoom_analysis.json''],
                 written = Some (''zoom_analysis.json'', Rows results),
                 returned = Inr (Rows results)\<rparr>)
         else
           (let files = matching d ''elevation_''
            in if files = [] then
                 \<lparr>stdout = [No_screenshots], written = None, returned = Inr (Dict [])\<rparr>
               else
                 (case elevation_loop d files
                         [Analyzing_elevation (length files), Elevation_header, Rule 60] [] of
                    (out, Inl e) \<Rightarrow> \<lparr>stdout = out, written = None, returned = Inl e\<rparr>
                  | (out, Inr results) \<Rightarrow>
                      \<lparr>stdout = out @ [Rule 60, Elevation_saved ''analysis_results.json''],
                       written = Some (''analysis_results.json'', Dict results),
                       returned = Inr (Dict results)\<rparr>)))"

section \<open>Sample inputs\<close>

text \<open>
  Concrete images and directories on which the theorems below are instantiated.  A 3 by 1
  image with one pure blue RGB pixel and two RGBA pixels of colour (10, 20, 30):
\<close>

definition small_image :: image where
  "small_image =
     \<lparr>width = 3, height = 1,
      getpixel = (\<lambda>(x, y). Inr (if x = 0 then Bands [0, 0, 255] else Bands [10, 20, 30, 255]))\<rparr>"

definition small_stats :: color_stats where
  "small_stats =
     \<lparr>blue_pixels = 1, total_pixels = 3, blue_ratio = literal (3333 / 10000),
      avg_color = (7, 13, 105), has_flooding = True\<rparr>"

text \<open>A 10 by 1 RGB image with exactly one flood-coloured pixel in ten.\<close>

definition tenth_image :: image where
  "tenth_image =
     \<lparr>width = 10, height = 1,
      getpixel = (\<lambda>(x, y). Inr (if x = 0 then Bands [0, 0, 255] else Bands [255, 255, 255]))\<rparr>"

definition tenth_stats :: color_stats where
  "tenth_stats =
     \<lparr>blue_pixels = 1, total_pixels = 10, blue_ratio = literal (1 / 10),
      avg_color = (230, 230, 255), has_flooding = False\<rparr>"

text \<open>A 10 by 10 image of pure blue, smaller than the 100 by 100 window.\<close>

definition blue_square :: image where
  "blue_square = \<lparr>width = 10, height = 10, getpixel = (\<lambda>xy. Inr (Bands [0, 0, 255]))\<rparr>"

text \<open>
  A 33 by 63 RGB image, white except for a 13 by 16 block of pure blue: 208 flood-coloured
  pixels out of 2079.
\<close>

definition boundary_image :: image where
  "boundary_image =
     \<lparr>width = 33, height = 63,
      getpixel = (\<lambda>(x, y). Inr (if (0 \<le> x \<and> x \<le> 12) \<and> (0 \<le> y \<and> y \<le> 15)
                                 then Bands [0, 0, 255] else Bands [255, 255, 255]))\<rparr>"

definition boundary_stats :: color_stats where
  "boundary_stats =
     \<lparr>blue_pixels = 208, total_pixels = 2079, blue_ratio = literal (1 / 10),
      avg_color = (229, 229, 255), has_flooding = True\<rparr>"

text \<open>A 1 by 1 grey-scale image (mode L): \<open>getpixel\<close> returns the integer 128.\<close>

definition gray_image :: image where
  "gray_image = \<lparr>width = 1, height = 1, getpixel = (\<lambda>xy. Inr (Number_int 128))\<rparr>"

text \<open>A 1 by 1 image with two bands (mode LA): \<open>getpixel\<close> returns a pair.\<close>

definition two_band_image :: image where
  "two_band_image = \<lparr>width = 1, height = 1, getpixel = (\<lambda>xy. Inr (Bands [128, 255]))\<rparr>"

definition empty_stats :: color_stats where
  "empty_stats =
     \<lparr>blue_pixels = 0, total_pixels = 0, blue_ratio = 0, avg_color = (0, 0, 0),
      has_flooding = False\<rparr>"

text \<open>
  What \<open>Image.open\<close> yields on a file that is not an image, and three directories: one with
  zoom files and an elevation file, one with elevation files only, one with neither.
\<close>

definition corrupt :: "string + image" where
  "corrupt = Inl ''cannot identify image file''"

definition zoom_dir :: directory where
  "zoom_dir =
     \<lparr>listdir = [''zoom_B_+0010ft.png'', ''elevation_+00000ft.png'', ''zoom_A_+0000ft.png''],
      Image_open = (\<lambda>f. if f = ''zoom_A_+0000ft.png'' then corrupt else Inr small_image)\<rparr>"

definition elevation_dir :: directory where
  "elevation_dir =
     \<lparr>listdir = [''elevation_-00050ft.png'', ''notes.txt'', ''elevation_+00000ft.png''],
      Image_open = (\<lambda>f. if f = ''elevation_-00050ft.png'' then corrupt else Inr small_image)\<rparr>"

definition other_dir :: directory where
  "other_dir = \<lparr>listdir = [''notes.txt'', ''debug_initial.png''], Image_open = (\<lambda>f. corrupt)\<rparr>"

section \<open>Rounding to the nearest double\<close>

lemma bit_length_bounds:
  "0 < n \<Longrightarrow> 1 \<le> bit_length n \<and> 2 ^ nat (bit_length n - 1) \<le> n \<and> n < 2 ^ nat (bit_length n)"
proof (induction n rule: bit_length.induct)
  case (1 n)
  show ?case
  proof (cases "n = 1")
    case True
    then show ?thesis by (simp add: bit_length.simps [of 1] bit_length.simps [of 0])
  next
    case False
    with "1.prems" have pos: "0 < n div 2" by linarith
    have ih: "1 \<le> bit_length (n div 2) \<and> 2 ^ nat (bit_length (n div 2) - 1) \<le> n div 2
              \<and> n div 2 < 2 ^ nat (bit_length (n div 2))"
      using "1.IH" "1.prems" pos by simp
    define k where "k = nat (bit_length (n div 2) - 1)"
    have bl: "bit_length n = 1 + bit_length (n div 2)"
      using "1.prems" by (subst bit_length.simps) simp
    have k1: "nat (bit_length n - 1) = Suc k" and k2: "nat (bit_length n) = Suc (Suc k)"
      and k3: "nat (bit_length (n div 2)) = Suc k"
      using ih bl unfolding k_def by arith+
    from ih have a: "2 ^ k \<le> n div 2" and b: "n div 2 < 2 ^ Suc k"
      by (simp_all add: k_def k3 [unfolded k_def])
    have A: "2 * 2 ^ k \<le> n" using a by linarith
    have B: "n < 2 * 2 ^ Suc k" using b by linarith
    show ?thesis
    proof (intro conjI)
      show "1 \<le> bit_length n" using ih bl by linarith
      show "2 ^ nat (bit_length n - 1) \<le> n" unfolding k1 using A by simp
      show "n < 2 ^ nat (bit_length n)" unfolding k2 using B by simp
    qed
  qed
qed

lemma bit_length_powi:
  assumes "0 < n"
  shows "2 powi (bit_length n - 1) \<le> (of_int n :: rat)" and "(of_int n :: rat) < 2 powi (bit_length n)"
proof -
  from bit_length_bounds [OF assms]
  have a: "1 \<le> bit_length n" and b: "2 ^ nat (bit_length n - 1) \<le> n" and c: "n < 2 ^ nat (bit_length n)"
    by simp_all
  have "(2::rat) powi (bit_length n - 1) = 2 ^ nat (bit_length n - 1)"
    using a by (simp add: power_int_def)
  also have "\<dots> = of_int (2 ^ nat (bit_length n - 1))" by simp
  also have "\<dots> \<le> of_int n" using b by (simp only: of_int_le_iff)
  finally show "2 powi (bit_length n - 1) \<le> (of_int n :: rat)" .
  have "(of_int n :: rat) < of_int (2 ^ nat (bit_length n))" using c by (simp only: of_int_less_iff)
  also have "\<dots> = 2 powi (bit_length n)" using a by (simp add: power_int_def)
  finally show "(of_int n :: rat) < 2 powi (bit_length n)" .
qed

lemma exponent_bounds:
  assumes "0 < x"
  shows "2 powi (exponent x) \<le> x" and "x < 2 powi (exponent x + 1)"
proof -
  obtain p q where pq: "quotient_of x = (p, q)" by (cases "quotient_of x")
  have q: "0 < q" using pq quotient_of_denom_pos by blast
  have x: "x = of_int p / of_int q" using pq quotient_of_div by blast
  have p: "0 < p" using assms q x by (simp add: zero_less_divide_iff)
  define g where "g = bit_length p - bit_length q"
  have e: "exponent x = (if 2 powi g \<le> x then g else g - 1)"
    by (simp add: exponent_def pq g_def Let_def)
  note P = bit_length_powi [OF p] and Q = bit_length_powi [OF q]
  have qpos: "(0::rat) < of_int q" using q by simp
  have lo: "2 powi (g - 1) \<le> x"
  proof -
    have "2 powi (g - 1) * (of_int q :: rat) \<le> 2 powi (g - 1) * 2 powi (bit_length q)"
      using Q(2) by (simp add: less_imp_le)
    also have "\<dots> = 2 powi (bit_length p - 1)"
      by (simp add: g_def flip: power_int_add)
    also have "\<dots> \<le> of_int p" by (rule P(1))
    finally show ?thesis using qpos by (simp add: x pos_le_divide_eq)
  qed
  have hi: "x < 2 powi (g + 1)"
  proof -
    have "(of_int p :: rat) < 2 powi (bit_length p)" by (rule P(2))
    also have "\<dots> = 2 powi (g + 1) * 2 powi (bit_length q - 1)"
      by (simp add: g_def flip: power_int_add)
    also have "\<dots> \<le> 2 powi (g + 1) * of_int q"
      using Q(1) by simp
    finally show ?thesis using qpos by (simp add: x pos_divide_less_eq)
  qed
  show "2 powi (exponent x) \<le> x" using lo by (simp add: e)
  show "x < 2 powi (exponent x + 1)" using hi by (auto simp add: e not_le)
qed

lemma round_half_even_error: "\<bar>of_int (round_half_even y) - y\<bar> \<le> 1 / 2"
proof -
  have a: "of_int \<lfloor>y\<rfloor> \<le> y" and b: "y < of_int \<lfloor>y\<rfloor> + 1" by linarith+
  show ?thesis
    by (simp add: round_half_even_def Let_def abs_if; use a b in linarith)
qed

lemma round_half_even_ge: "of_int m \<le> y \<Longrightarrow> m \<le> round_half_even y"
proof -
  assume "of_int m \<le> y"
  then have "m \<le> \<lfloor>y\<rfloor>" by (simp add: le_floor_iff)
  then show ?thesis by (auto simp add: round_half_even_def Let_def)
qed

lemma round_half_even_le: "y \<le> of_int m \<Longrightarrow> round_half_even y \<le> m"
proof -
  assume a: "y \<le> of_int m"
  have f: "\<lfloor>y\<rfloor> \<le> m" using a by (simp add: floor_le_iff) 
  show ?thesis
  proof (cases "\<lfloor>y\<rfloor> = m")
    case True
    then have "y = of_int m" using a by (metis of_int_floor_le order_antisym)
    then show ?thesis by (simp add: round_half_even_def)
  next
    case False
    with f have "\<lfloor>y\<rfloor> + 1 \<le> m" by simp
    then show ?thesis by (auto simp add: round_half_even_def Let_def)
  qed
qed

lemma round_half_even_of_int [simp]: "round_half_even (of_int m) = m"
  by (simp add: round_half_even_def)

lemma fl_pos:
  "0 < x \<Longrightarrow> fl x = of_int (round_half_even (x / 2 powi (exponent x - 52))) * 2 powi (exponent x - 52)"
  by (simp add: fl_def Let_def)

lemma fl_error:
  assumes "0 < x"
  shows "\<bar>fl x - x\<bar> \<le> x / 2 ^ 53"
proof -
  define u :: rat where "u = 2 powi (exponent x - 52)"
  have u: "0 < u" by (simp add: u_def)
  have "fl x - x = (of_int (round_half_even (x / u)) - x / u) * u"
    using u by (simp add: fl_pos [OF assms] u_def [symmetric] field_simps)
  then have "\<bar>fl x - x\<bar> = \<bar>of_int (round_half_even (x / u)) - x / u\<bar> * u"
    using u by (simp add: abs_mult)
  also have "\<dots> \<le> (1 / 2) * u"
    using u round_half_even_error [of "x / u"] by (simp only: mult_le_cancel_right_pos)
  also have "\<dots> = 2 powi (exponent x) / 2 ^ 53"
    by (simp add: u_def power_int_diff)
  also have "\<dots> \<le> x / 2 ^ 53"
    using exponent_bounds(1) [OF assms] by (simp add: divide_right_mono)
  finally show ?thesis .
qed

lemma exponent_less:
  assumes "0 < x" and "x < 2 powi n"
  shows "exponent x < n"
proof (rule ccontr)
  assume "\<not> exponent x < n"
  then have "n \<le> exponent x" by simp
  then have "(2::rat) powi n \<le> 2 powi (exponent x)"
    by (simp add: power_int_increasing)
  with exponent_bounds(1) [OF assms(1)] assms(2) show False by linarith
qed

lemma dyadic_over_ulp:
  assumes "e + int k \<le> 52"
  shows "(of_int m / 2 ^ k) / 2 powi (e - 52) = (of_int (m * 2 ^ nat (52 - e - int k)) :: rat)"
proof -
  have "(2::rat) ^ nat (52 - e - int k) = 2 powi (52 - e - int k)"
    using assms by (simp add: power_int_def)
  also have "\<dots> = 2 powi (52 - e) / 2 powi (int k)"
    by (simp add: power_int_diff)
  also have "\<dots> = 1 / 2 powi (e - 52) / 2 ^ k"
    by (simp add: power_int_diff field_simps)
  finally show ?thesis by simp
qed

lemma fl_ge_dyadic:
  assumes "0 < x" and "x < 2 powi (53 - int k)" and "of_int m / 2 ^ k \<le> x"
  shows "of_int m / 2 ^ k \<le> fl x"
proof -
  define e where "e = exponent x"
  define u :: rat where "u = 2 powi (e - 52)"
  have u: "0 < u" by (simp add: u_def)
  have "e < 53 - int k" unfolding e_def by (rule exponent_less [OF assms(1,2)])
  then have ek: "e + int k \<le> 52" by simp
  have "(of_int m / 2 ^ k) / u \<le> x / u"
    by (rule divide_right_mono [OF assms(3) less_imp_le [OF u]])
  then have "(of_int (m * 2 ^ nat (52 - e - int k)) :: rat) \<le> x / u"
    unfolding u_def by (simp only: dyadic_over_ulp [OF ek])
  then have "m * 2 ^ nat (52 - e - int k) \<le> round_half_even (x / u)"
    by (rule round_half_even_ge)
  then have "(of_int (m * 2 ^ nat (52 - e - int k)) :: rat) \<le> of_int (round_half_even (x / u))"
    by (simp only: of_int_le_iff)
  then have "(of_int m / 2 ^ k) / u \<le> of_int (round_half_even (x / u))"
    unfolding u_def by (simp only: dyadic_over_ulp [OF ek])
  then have "of_int m / 2 ^ k \<le> of_int (round_half_even (x / u)) * u"
    by (simp only: pos_divide_le_eq [OF u])
  then show ?thesis by (simp add: fl_pos [OF assms(1)] u_def e_def)
qed

lemma fl_le_dyadic:
  assumes "0 < x" and "x < 2 powi (53 - int k)" and "x \<le> of_int m / 2 ^ k"
  shows "fl x \<le> of_int m / 2 ^ k"
proof -
  define e where "e = exponent x"
  define u :: rat where "u = 2 powi (e - 52)"
  have u: "0 < u" by (simp add: u_def)
  have "e < 53 - int k" unfolding e_def by (rule exponent_less [OF assms(1,2)])
  then have ek: "e + int k \<le> 52" by simp
  have "x / u \<le> (of_int m / 2 ^ k) / u"
    by (rule divide_right_mono [OF assms(3) less_imp_le [OF u]])
  then have "x / u \<le> (of_int (m * 2 ^ nat (52 - e - int k)) :: rat)"
    unfolding u_def by (simp only: dyadic_over_ulp [OF ek])
  then have "round_half_even (x / u) \<le> m * 2 ^ nat (52 - e - int k)"
    by (rule round_half_even_le)
  then have "(of_int (round_half_even (x / u)) :: rat) \<le> of_int (m * 2 ^ nat (52 - e - int k))"
    by (simp only: of_int_le_iff)
  then have "of_int (round_half_even (x / u)) \<le> (of_int m / 2 ^ k) / u"
    unfolding u_def by (simp only: dyadic_over_ulp [OF ek])
  then have "of_int (round_half_even (x / u)) * u \<le> of_int m / 2 ^ k"
    by (simp only: pos_le_divide_eq [OF u])
  then show ?thesis by (simp add: fl_pos [OF assms(1)] u_def e_def)
qed

lemma fl_nonneg: "0 \<le> x \<Longrightarrow> 0 \<le> fl x"
proof (cases "x = 0")
  case True
  then show ?thesis by (simp add: fl_def)
next
  case False
  assume "0 \<le> x"
  with False have x: "0 < x" by simp
  have "0 \<le> round_half_even (x / 2 powi (exponent x - 52))"
    by (rule round_half_even_ge) (use x in simp)
  then show ?thesis by (simp add: fl_pos [OF x])
qed

lemma round_half_even_mono:
  assumes "a \<le> b"
  shows "round_half_even a \<le> round_half_even b"
proof (cases "\<lfloor>a\<rfloor> = \<lfloor>b\<rfloor>")
  case True
  then show ?thesis using assms by (auto simp add: round_half_even_def Let_def)
next
  case False
  have "\<lfloor>a\<rfloor> \<le> \<lfloor>b\<rfloor>" using assms by (rule floor_mono)
  with False have "\<lfloor>a\<rfloor> + 1 \<le> \<lfloor>b\<rfloor>" by simp
  moreover have "round_half_even a \<le> \<lfloor>a\<rfloor> + 1" by (auto simp add: round_half_even_def Let_def)
  moreover have "\<lfloor>b\<rfloor> \<le> round_half_even b" by (auto simp add: round_half_even_def Let_def)
  ultimately show ?thesis by linarith
qed

lemma fl_in_binade:
  assumes "0 < x"
  shows "2 powi (exponent x) \<le> fl x" and "fl x \<le> 2 powi (exponent x + 1)"
proof -
  define e where "e = exponent x"
  define u :: rat where "u = 2 powi (e - 52)"
  have u: "0 < u" by (simp add: u_def)
  have lo: "2 powi e \<le> x" and hi: "x < 2 powi (e + 1)"
    unfolding e_def using exponent_bounds [OF assms] by simp_all
  have p52: "(2::rat) powi e / u = of_int (2 ^ 52)"
    by (simp add: u_def power_int_diff)
  have p53: "(2::rat) powi (e + 1) / u = of_int (2 ^ 53)"
    by (simp add: u_def power_int_diff power_int_add)
  have "(of_int (2 ^ 52) :: rat) \<le> x / u"
    unfolding p52 [symmetric] by (rule divide_right_mono [OF lo less_imp_le [OF u]])
  then have "(2 ^ 52 :: int) \<le> round_half_even (x / u)" by (rule round_half_even_ge)
  then have "(of_int (2 ^ 52) :: rat) \<le> of_int (round_half_even (x / u))"
    by (simp only: of_int_le_iff)
  then have "2 powi e / u \<le> of_int (round_half_even (x / u))" by (simp only: p52)
  then have "2 powi e \<le> of_int (round_half_even (x / u)) * u"
    by (simp only: pos_divide_le_eq [OF u])
  then show "2 powi (exponent x) \<le> fl x" by (simp add: fl_pos [OF assms] u_def e_def)
  have "x / u \<le> (of_int (2 ^ 53) :: rat)"
    unfolding p53 [symmetric] by (rule divide_right_mono [OF less_imp_le [OF hi] less_imp_le [OF u]])
  then have "round_half_even (x / u) \<le> (2 ^ 53 :: int)" by (rule round_half_even_le)
  then have "(of_int (round_half_even (x / u)) :: rat) \<le> of_int (2 ^ 53)"
    by (simp only: of_int_le_iff)
  then have "of_int (round_half_even (x / u)) \<le> 2 powi (e + 1) / u" by (simp only: p53)
  then have "of_int (round_half_even (x / u)) * u \<le> 2 powi (e + 1)"
    by (simp only: pos_le_divide_eq [OF u])
  then show "fl x \<le> 2 powi (exponent x + 1)" by (simp add: fl_pos [OF assms] u_def e_def)
qed

lemma fl_mono:
  assumes "0 \<le> x" and "x \<le> y"
  shows "fl x \<le> fl y"
proof (cases "x = 0")
  case True
  then show ?thesis using assms fl_nonneg [of y] by (simp add: fl_def)
next
  case False
  with assms have x: "0 < x" and y: "0 < y" by simp_all
  have "2 powi (exponent x) \<le> x" by (rule exponent_bounds(1) [OF x])
  also have "x \<le> y" by fact
  also have "y < 2 powi (exponent y + 1)" by (rule exponent_bounds(2) [OF y])
  finally have lt: "(2::rat) powi (exponent x) < 2 powi (exponent y + 1)" .
  have "exponent x < exponent y + 1"
  proof (rule ccontr)
    assume "\<not> exponent x < exponent y + 1"
    then have "exponent y + 1 \<le> exponent x" by simp
    then have "(2::rat) powi (exponent y + 1) \<le> 2 powi (exponent x)"
      by (simp add: power_int_increasing)
    with lt show False by simp
  qed
  then consider "exponent x = exponent y" | "exponent x + 1 \<le> exponent y" by linarith
  then show ?thesis
  proof cases
    case 1
    define u :: rat where "u = 2 powi (exponent y - 52)"
    have u: "0 < u" by (simp add: u_def)
    have "x / u \<le> y / u" by (rule divide_right_mono [OF assms(2) less_imp_le [OF u]])
    then have "round_half_even (x / u) \<le> round_half_even (y / u)"
      by (rule round_half_even_mono)
    then have "(of_int (round_half_even (x / u)) :: rat) * u \<le> of_int (round_half_even (y / u)) * u"
      using u by (simp only: mult_le_cancel_right_pos of_int_le_iff)
    then show ?thesis by (simp add: fl_pos [OF x] fl_pos [OF y] 1 u_def)
  next
    case 2
    have "fl x \<le> 2 powi (exponent x + 1)" by (rule fl_in_binade(2) [OF x])
    also have "\<dots> \<le> 2 powi (exponent y)" using 2 by (simp add: power_int_increasing)
    also have "\<dots> \<le> fl y" by (rule fl_in_binade(1) [OF y])
    finally show ?thesis .
  qed
qed

lemma literal_1_10: "literal (1 / 10) = 3602879701896397 / 36028797018963968"
  by code_simp

lemma literal_13_10: "literal (13 / 10) = 5854679515581645 / 4503599627370496"
  by code_simp

lemma literal_11_10: "literal (11 / 10) = 2476979795053773 / 2251799813685248"
  by code_simp

lemma fl_zero [simp]: "fl 0 = 0"
  by (simp add: fl_def)

lemma fl_one [simp]: "fl 1 = 1"
  by code_simp

lemma round_half_even_low:
  assumes "of_int f \<le> y" and "y < of_int f + 1 / 2"
  shows "round_half_even y = f"
proof -
  have "\<lfloor>y\<rfloor> = f" using assms by (intro floor_unique) simp_all
  then show ?thesis using assms by (simp add: round_half_even_def Let_def)
qed

lemma round_half_even_high:
  assumes "of_int f + 1 / 2 < y" and "y \<le> of_int f + 1"
  shows "round_half_even y = f + 1"
proof (cases "y = of_int f + 1")
  case True
  then have "y = of_int (f + 1)" by simp
  then show ?thesis by (simp only: round_half_even_of_int)
next
  case False
  have "\<lfloor>y\<rfloor> = f" using assms False by (intro floor_unique) simp_all
  then show ?thesis using assms by (simp add: round_half_even_def Let_def)
qed

lemma round_ndigits_mono:
  assumes "0 \<le> x" and "x \<le> y"
  shows "round_ndigits x n \<le> round_ndigits y n"
proof -
  have "x * 10 ^ n \<le> y * 10 ^ n" using assms(2) by (simp add: mult_right_mono)
  then have k: "round_half_even (x * 10 ^ n) \<le> round_half_even (y * 10 ^ n)"
    by (rule round_half_even_mono)
  have "0 \<le> round_half_even (x * 10 ^ n)"
    by (rule round_half_even_ge) (use assms(1) in simp)
  then have "(0::rat) \<le> of_int (round_half_even (x * 10 ^ n)) / 10 ^ n" by simp
  moreover have "(of_int (round_half_even (x * 10 ^ n)) :: rat) / 10 ^ n
      \<le> of_int (round_half_even (y * 10 ^ n)) / 10 ^ n"
    using k by (simp add: divide_right_mono)
  ultimately show ?thesis unfolding round_ndigits_def by (rule fl_mono)
qed

lemma round_ndigits_tenth: "round_ndigits (literal (1 / 10)) 4 = literal (1 / 10)"
  by code_simp

lemma round_half_even_zero [simp]: "round_half_even 0 = 0"
  by (simp add: round_half_even_def)

lemma round_ndigits_zero [simp]: "round_ndigits 0 n = 0"
  by (simp add: round_ndigits_def)

lemma round_ndigits_one: "round_ndigits 1 4 = 1"
  by code_simp

lemma truediv_bounds:
  assumes "0 \<le> b" and "b \<le> t" and "0 < t"
  shows "0 \<le> truediv b t" and "truediv b t \<le> 1"
proof -
  have q: "(0::rat) \<le> of_int b / of_int t" using assms by simp
  show "0 \<le> truediv b t" unfolding truediv_def by (rule fl_nonneg [OF q])
  have "(of_int b :: rat) / of_int t \<le> 1" using assms by simp
  then have "fl (of_int b / of_int t) \<le> fl 1" by (rule fl_mono [OF q])
  then show "truediv b t \<le> 1" by (simp add: truediv_def)
qed

lemma fl_10001: "literal (1 / 10) < fl (10001 / 100000)"
  by code_simp

lemma truediv_gt_tenth:
  assumes "0 \<le> b" and "0 < t" and "t \<le> 10000"
  shows "literal (1 / 10) < truediv b t \<longleftrightarrow> t < 10 * b"
proof
  assume gt: "literal (1 / 10) < truediv b t"
  show "t < 10 * b"
  proof (rule ccontr)
    assume "\<not> t < 10 * b"
    then have "10 * b \<le> t" by simp
    then have "(of_int (10 * b) :: rat) \<le> of_int t" by (simp only: of_int_le_iff)
    then have "(of_int b :: rat) / of_int t \<le> 1 / 10" using assms(2) by (simp add: field_simps)
    moreover have "(0::rat) \<le> of_int b / of_int t" using assms by simp
    ultimately have "fl (of_int b / of_int t) \<le> fl (1 / 10)" by (intro fl_mono)
    with gt show False by (simp add: truediv_def literal_def)
  qed
next
  assume "t < 10 * b"
  then have "t + 1 \<le> 10 * b" by simp
  then have "(of_int (t + 1) :: rat) \<le> of_int (10 * b)" by (simp only: of_int_le_iff)
  then have "(of_int t :: rat) + 1 \<le> 10 * of_int b" by simp
  moreover have "(of_int t :: rat) \<le> 10000" using assms(3) by simp
  moreover have tp: "(0 :: rat) < of_int t" using assms(2) by simp
  ultimately have "(10001 :: rat) * of_int t \<le> 100000 * of_int b" by linarith
  then have "(10001 / 100000 :: rat) \<le> of_int b / of_int t"
    using tp by (simp add: field_simps)
  then have "fl (10001 / 100000) \<le> fl (of_int b / of_int t)" by (intro fl_mono) simp_all
  with fl_10001 show "literal (1 / 10) < truediv b t" by (simp add: truediv_def)
qed

lemma gt_float_mul_iff:
  assumes r: "0 \<le> r" "r \<le> 255"
    and c: "of_int n / 10 \<le> c" "c \<le> of_int n / 10 + 1 / 10 ^ 15"
    and n: "0 < n" "n \<le> 13"
  shows "float_mul (of_int r) c < of_int b \<longleftrightarrow> n * r < 10 * b"
proof (cases "r = 0")
  case True
  then show ?thesis by (simp add: float_mul_def)
next
  case False
  with r have rpos: "0 < r" by simp
  define y where "y = of_int r * c"
  have rr: "(0::rat) < of_int r" "(of_int r :: rat) \<le> 255" using rpos r by simp_all
  have nn: "(0::rat) < of_int n" "(of_int n :: rat) \<le> 13" using n by simp_all
  have cpos: "0 < c" using c(1) nn by simp
  have ypos: "0 < y" unfolding y_def using rr cpos by simp
  have ylo: "of_int (n * r) / 10 \<le> y"
  proof -
    have "of_int r * (of_int n / 10) \<le> of_int r * c"
      using c(1) rr by (simp only: mult_le_cancel_left_pos)
    then show ?thesis by (simp add: y_def mult.commute)
  qed
  have yhi: "y \<le> of_int (n * r) / 10 + 255 / 10 ^ 15"
  proof -
    have "of_int r * c \<le> of_int r * (of_int n / 10 + 1 / 10 ^ 15)"
      using c(2) rr by (simp only: mult_le_cancel_left_pos)
    also have "\<dots> = of_int (n * r) / 10 + of_int r / 10 ^ 15"
      by (simp add: algebra_simps)
    also have "\<dots> \<le> of_int (n * r) / 10 + 255 / 10 ^ 15"
      using rr by simp
    finally show ?thesis by (simp add: y_def)
  qed
  have nr: "(of_int (n * r) :: rat) \<le> 13 * 255"
  proof -
    have "n * r \<le> 13 * 255" using n r by (intro mult_mono) simp_all
    then have "(of_int (n * r) :: rat) \<le> of_int (13 * 255)" by (simp only: of_int_le_iff)
    then show ?thesis by simp
  qed
  have y400: "y \<le> 400" using yhi nr by simp
  show ?thesis
  proof
    assume lt: "float_mul (of_int r) c < of_int b"
    show "n * r < 10 * b"
    proof (rule ccontr)
      assume "\<not> n * r < 10 * b"
      then have "10 * b \<le> n * r" by simp
      then have "(of_int (10 * b) :: rat) \<le> of_int (n * r)" by (simp only: of_int_le_iff)
      then have "(of_int b :: rat) \<le> of_int (n * r) / 10" by simp
      with ylo have "(of_int b :: rat) / 2 ^ 0 \<le> y" by simp
      moreover have "y < 2 powi (53 - int 0)" using y400 by simp
      ultimately have "(of_int b :: rat) / 2 ^ 0 \<le> fl y" by (intro fl_ge_dyadic [OF ypos])
      with lt show False by (simp add: float_mul_def y_def)
    qed
  next
    assume "n * r < 10 * b"
    then have "n * r + 1 \<le> 10 * b" by simp
    then have "(of_int (n * r + 1) :: rat) \<le> of_int (10 * b)" by (simp only: of_int_le_iff)
    then have b: "(of_int (n * r) :: rat) / 10 + 1 / 10 \<le> of_int b" by simp
    have "\<bar>fl y - y\<bar> \<le> y / 2 ^ 53" by (rule fl_error [OF ypos])
    then have "fl y \<le> y + y / 2 ^ 53" by linarith
    also have "\<dots> \<le> y + 400 / 2 ^ 53" using y400 by simp
    also have "\<dots> \<le> of_int (n * r) / 10 + 255 / 10 ^ 15 + 400 / 2 ^ 53" using yhi by simp
    also have "\<dots> < of_int (n * r) / 10 + 1 / 10" by simp
    also have "\<dots> \<le> of_int b" by (rule b)
    finally show "float_mul (of_int r) c < of_int b" by (simp add: float_mul_def y_def)
  qed
qed

lemma flood_color_exact:
  assumes "0 \<le> r" "r \<le> 255" "0 \<le> g" "g \<le> 255"
  shows "flood_color r g b \<longleftrightarrow> 100 < b \<and> 13 * r < 10 * b \<and> 11 * g < 10 * b"
proof -
  have "float_mul (of_int r) (literal (13 / 10)) < of_int b \<longleftrightarrow> 13 * r < 10 * b"
    by (rule gt_float_mul_iff [OF assms(1,2)]) (simp_all add: literal_13_10)
  moreover have "float_mul (of_int g) (literal (11 / 10)) < of_int b \<longleftrightarrow> 11 * g < 10 * b"
    by (rule gt_float_mul_iff [OF assms(3,4)]) (simp_all add: literal_11_10)
  ultimately show ?thesis by (simp add: flood_color_def)
qed

lemma round_truediv:
  assumes "0 \<le> s" and "s \<le> 255 * t" and "0 < t" and "t \<le> 10000"
  shows "round_half_even (truediv s t) = round_half_even (of_int s / of_int t)"
proof (cases "s = 0")
  case True
  then show ?thesis by (simp add: truediv_def)
next
  case False
  with assms(1) have spos: "0 < s" by simp
  define q :: rat where "q = of_int s / of_int t"
  define f where "f = \<lfloor>q\<rfloor>"
  have tp: "(0::rat) < of_int t" using assms(3) by simp
  have t4: "(of_int t :: rat) \<le> 10000" using assms(4) by simp
  have qpos: "0 < q" unfolding q_def using spos tp by simp
  have q255: "q \<le> 255"
  proof -
    have "(of_int s :: rat) \<le> of_int (255 * t)" using assms(2) by (simp only: of_int_le_iff)
    then show ?thesis using tp by (simp add: q_def pos_divide_le_eq)
  qed
  have flo: "of_int f \<le> q" and fhi: "q < of_int f + 1" unfolding f_def by linarith+
  have err: "\<bar>fl q - q\<bar> \<le> 255 / 2 ^ 53"
  proof -
    have "\<bar>fl q - q\<bar> \<le> q / 2 ^ 53" by (rule fl_error [OF qpos])
    also have "\<dots> \<le> 255 / 2 ^ 53" using q255 by simp
    finally show ?thesis .
  qed
  have small: "(255::rat) / 2 ^ 53 \<le> 1 / 40000" by simp
  have e1: "fl q \<le> q + 1 / 40000" and e2: "q - 1 / 40000 \<le> fl q"
    using err small by linarith+
  have gap: "(1::rat) / 20000 \<le> 1 / (2 * of_int t)"
    using tp t4 by (simp add: field_simps)
  have q52: "q < 2 powi (53 - int 0)" and q51: "q < 2 powi (53 - int 1)" using q255 by simp_all
  have qt: "q * (2 * of_int t) = of_int (2 * s)" using tp by (simp add: q_def)
  consider "2 * s = (2 * f + 1) * t" | "2 * s < (2 * f + 1) * t" | "(2 * f + 1) * t < 2 * s"
    by linarith
  then show ?thesis
  proof cases
    case 1
    then have "(of_int (2 * s) :: rat) = of_int ((2 * f + 1) * t)" by simp
    then have "q * (2 * of_int t) = of_int (2 * f + 1) * of_int t" by (simp add: qt)
    then have "(q * 2 - of_int (2 * f + 1)) * of_int t = 0" by (simp add: algebra_simps)
    then have "q * 2 - of_int (2 * f + 1) = 0" using tp by simp
    then have qd: "q = of_int (2 * f + 1) / 2 ^ 1" by simp
    have "of_int (2 * f + 1) / 2 ^ 1 \<le> fl q"
      by (rule fl_ge_dyadic [OF qpos q51]) (simp add: qd)
    moreover have "fl q \<le> of_int (2 * f + 1) / 2 ^ 1"
      by (rule fl_le_dyadic [OF qpos q51]) (simp add: qd)
    ultimately have "fl q = of_int (2 * f + 1) / 2 ^ 1" by (rule order_antisym [rotated])
    then have "fl q = q" by (simp only: qd [symmetric])
    then show ?thesis by (simp add: truediv_def q_def)
  next
    case 2
    then have "2 * s + 1 \<le> (2 * f + 1) * t" by simp
    then have "(of_int (2 * s + 1) :: rat) \<le> of_int ((2 * f + 1) * t)" by (simp only: of_int_le_iff)
    then have "q * (2 * of_int t) + 1 \<le> (2 * of_int f + 1) * of_int t" by (simp add: qt)
    then have "q + 1 / (2 * of_int t) \<le> of_int f + 1 / 2" using tp by (simp add: field_simps)
    with gap have a: "q + 1 / 20000 \<le> of_int f + 1 / 2" by linarith
    have "of_int f / 2 ^ 0 \<le> fl q" by (rule fl_ge_dyadic [OF qpos q52]) (simp add: flo)
    moreover have "fl q < of_int f + 1 / 2" using e1 a by linarith
    ultimately have "round_half_even (fl q) = f" by (intro round_half_even_low) simp_all
    moreover have "round_half_even q = f" by (intro round_half_even_low flo) (use a in simp)
    ultimately show ?thesis by (simp add: truediv_def q_def)
  next
    case 3
    then have "(2 * f + 1) * t + 1 \<le> 2 * s" by simp
    then have "(of_int ((2 * f + 1) * t + 1) :: rat) \<le> of_int (2 * s)" by (simp only: of_int_le_iff)
    then have "(2 * of_int f + 1) * of_int t + 1 \<le> q * (2 * of_int t)" by (simp add: qt)
    then have "of_int f + 1 / 2 + 1 / (2 * of_int t) \<le> q" using tp by (simp add: field_simps)
    with gap have a: "of_int f + 1 / 2 + 1 / 20000 \<le> q" by linarith
    have "fl q \<le> of_int (f + 1) / 2 ^ 0"
      by (rule fl_le_dyadic [OF qpos q52]) (use fhi in simp)
    moreover have "of_int f + 1 / 2 < fl q" using e2 a by linarith
    ultimately have "round_half_even (fl q) = f + 1" by (intro round_half_even_high) simp_all
    moreover have "round_half_even q = f + 1"
      by (intro round_half_even_high) (use a fhi in simp_all)
    ultimately show ?thesis by (simp add: truediv_def q_def)
  qed
qed

section \<open>The sampling loops\<close>

lemma for_each_append:
  "for_each body (as @ bs) s =
     (case for_each body as s of Inl e \<Rightarrow> Inl e | Inr s' \<Rightarrow> for_each body bs s')"
  by (induction as arbitrary: s) (auto split: sum.splits)

lemma for_each_map:
  "for_each body (map f as) s = for_each (\<lambda>s a. body s (f a)) as s"
  by (induction as arbitrary: s) (auto split: sum.splits)

lemma for_each_product:
  "for_each (\<lambda>c x. for_each (\<lambda>c y. body c (x, y)) ys c) xs s
     = for_each body (List.product xs ys) s"
  by (induction xs arbitrary: s) (auto simp add: for_each_append for_each_map split: sum.splits)

lemma for_each_filter:
  assumes "\<And>a s. a \<in> set as \<Longrightarrow> \<not> P a \<Longrightarrow> body s a = Inr s"
  shows "for_each body (filter P as) s = for_each body as s"
  using assms by (induction as arbitrary: s) (auto split: sum.splits)

lemma visit_outside: "\<not> inside img xy \<Longrightarrow> visit img c xy = Inr c"
  by (cases xy) (auto simp add: inside_def visit_def)

lemma scan_window:
  "scan img = for_each (visit img) (window img)
                \<lparr>n_blue = 0, n_total = 0, avg_r = 0, avg_g = 0, avg_b = 0\<rparr>"
  by (simp add: scan_def window_def Let_def for_each_product for_each_filter visit_outside)

lemma visit_skipped:
  assumes "visit img c xy = Inr c'" and "\<not> has_rgb img xy"
  shows "c' = c"
  using assms
  by (cases xy) (auto simp add: visit_def has_rgb_def split: if_splits sum.splits pixel.splits)

lemma visit_counted:
  assumes "inside img xy" and "has_rgb img xy"
  shows "visit img c xy =
     Inr \<lparr>n_blue = n_blue c + (if is_flood img xy then 1 else 0),
          n_total = n_total c + 1,
          avg_r = avg_r c + channel img 0 xy,
          avg_g = avg_g c + channel img 1 xy,
          avg_b = avg_b c + channel img 2 xy\<rparr>"
  using assms
  by (cases xy)
     (auto simp add: visit_def has_rgb_def inside_def is_flood_def channel_def Let_def
           split: sum.splits pixel.splits)

lemma for_each_visit:
  assumes "for_each (visit img) as c = Inr c'" and "\<forall>xy \<in> set as. inside img xy"
  shows "c' = tally img c (filter (has_rgb img) as)"
  using assms
proof (induction as arbitrary: c)
  case Nil
  then show ?case by (simp add: tally_def)
next
  case (Cons a as)
  from Cons.prems(1) obtain c1 where c1: "visit img c a = Inr c1"
    and rest: "for_each (visit img) as c1 = Inr c'"
    by (auto split: sum.splits)
  have ih: "c' = tally img c1 (filter (has_rgb img) as)"
    using Cons.IH [OF rest] Cons.prems(2) by simp
  show ?case
  proof (cases "has_rgb img a")
    case True
    have "inside img a" using Cons.prems(2) by simp
    from c1 visit_counted [OF this True, of c] show ?thesis
      by (auto simp add: ih True tally_def)
  next
    case False
    with c1 have "c1 = c" by (rule visit_skipped)
    then show ?thesis by (simp add: ih False)
  qed
qed

lemma window_inside: "\<forall>xy \<in> set (window img). inside img xy"
  by (simp add: window_def Let_def)

lemma scan_result:
  assumes "scan img = Inr c"
  shows "c = \<lparr>n_blue = int (length (filter (is_flood img) (counted img))),
              n_total = int (length (counted img)),
              avg_r = sum_list (map (channel img 0) (counted img)),
              avg_g = sum_list (map (channel img 1) (counted img)),
              avg_b = sum_list (map (channel img 2) (counted img))\<rparr>"
  using for_each_visit [OF assms [unfolded scan_window] window_inside]
  by (simp add: tally_def counted_def)

lemma visit_bands:
  assumes "getpixel img xy = Inr (Bands p)"
  shows "\<exists>c'. visit img c xy = Inr c'"
  using assms by (cases xy) (auto simp add: visit_def Let_def)

lemma for_each_visit_succeeds:
  assumes "\<forall>xy \<in> set as. \<exists>p. getpixel img xy = Inr (Bands p)"
  shows "\<exists>c'. for_each (visit img) as c = Inr c'"
  using assms
proof (induction as arbitrary: c)
  case Nil
  then show ?case by simp
next
  case (Cons a as)
  then obtain p where "getpixel img a = Inr (Bands p)" by auto
  then obtain c1 where "visit img c a = Inr c1" using visit_bands by blast
  moreover obtain c' where "for_each (visit img) as c1 = Inr c'" using Cons by auto
  ultimately show ?case by simp
qed

lemma scan_succeeds:
  assumes "\<forall>xy \<in> set (window img). \<exists>p. getpixel img xy = Inr (Bands p)"
  shows "\<exists>c. scan img = Inr c"
  unfolding scan_window by (rule for_each_visit_succeeds [OF assms])

lemma filter_upto:
  "filter (\<lambda>x. lo \<le> x \<and> x \<le> hi) [a..b] = [max a lo..min b hi]"
  by (rule sorted_distinct_set_unique) (auto simp add: sorted_wrt_filter)

lemma filter_product:
  "filter (\<lambda>(x, y). P x \<and> Q y) (List.product xs ys) = List.product (filter P xs) (filter Q ys)"
proof (induction xs)
  case Nil
  then show ?case by simp
next
  case (Cons x xs)
  have "filter (\<lambda>(x', y). P x' \<and> Q y) (map (Pair x) ys) = (if P x then map (Pair x) (filter Q ys) else [])"
    by (induction ys) auto
  with Cons show ?case by simp
qed

lemma window_product:
  "window img =
     List.product
       [max (int (width img) div 2 - 50) 0..min (int (width img) div 2 + 49) (int (width img) - 1)]
       [max (int (height img) div 2 - 50) 0..min (int (height img) div 2 + 49) (int (height img) - 1)]"
proof -
  have eq: "inside img = (\<lambda>(x, y). (0 \<le> x \<and> x \<le> int (width img) - 1) \<and> (0 \<le> y \<and> y \<le> int (height img) - 1))"
    by (auto simp add: inside_def fun_eq_iff)
  show ?thesis
    unfolding window_def Let_def range_py_def eq filter_product filter_upto
    by (simp add: add.commute)
qed

lemma window_extent:
  "[max (int w div 2 - 50) 0..min (int w div 2 + 49) (int w - 1)] =
     (if w < 100 then [0..int w - 1] else [int w div 2 - 50..int w div 2 + 49])"
proof -
  have "w < 100 \<Longrightarrow> max (int w div 2 - 50) 0 = 0 \<and> min (int w div 2 + 49) (int w - 1) = int w - 1"
    by (auto simp add: max_def min_def)
  moreover have "\<not> w < 100 \<Longrightarrow> max (int w div 2 - 50) 0 = int w div 2 - 50
      \<and> min (int w div 2 + 49) (int w - 1) = int w div 2 + 49"
    by (auto simp add: max_def min_def)
  ultimately show ?thesis by auto
qed

lemma length_window: "length (window img) = min (width img) 100 * min (height img) 100"
  by (simp add: window_product window_extent)

lemma distinct_window: "distinct (window img)"
  by (simp add: window_product distinct_product)

lemma set_window:
  "set (window img) =
     {(x, y). int (width img) div 2 - 50 \<le> x \<and> x < int (width img) div 2 + 50
            \<and> int (height img) div 2 - 50 \<le> y \<and> y < int (height img) div 2 + 50
            \<and> 0 \<le> x \<and> x < int (width img) \<and> 0 \<le> y \<and> y < int (height img)}"
  by (auto simp add: window_def Let_def range_py_def inside_def)

lemma channel_range: "0 \<le> channel img i xy \<and> channel img i xy \<le> 255"
proof -
  have "uint w \<le> 255" for w :: "8 word"
    using uint_bounded [of w] by simp
  then show ?thesis
    by (auto simp add: channel_def split: sum.splits pixel.splits)
qed

lemma sum_list_channel:
  "0 \<le> sum_list (map (channel img i) as) \<and> sum_list (map (channel img i) as) \<le> 255 * int (length as)"
proof (induction as)
  case Nil
  then show ?case by simp
next
  case (Cons a as)
  with channel_range [of img i a] show ?case by simp
qed

lemma length_counted: "length (counted img) \<le> 10000"
proof -
  have "length (counted img) \<le> length (window img)" by (simp add: counted_def)
  also have "\<dots> = min (width img) 100 * min (height img) 100" by (rule length_window)
  also have "\<dots> \<le> 100 * 100" by (intro mult_le_mono) simp_all
  finally show ?thesis by simp
qed

lemma scan_bounds:
  assumes "scan img = Inr c"
  shows "0 \<le> n_blue c" "n_blue c \<le> n_total c" "0 \<le> n_total c" "n_total c \<le> 10000"
    "0 \<le> avg_r c" "avg_r c \<le> 255 * n_total c"
    "0 \<le> avg_g c" "avg_g c \<le> 255 * n_total c"
    "0 \<le> avg_b c" "avg_b c \<le> 255 * n_total c"
proof -
  note c = scan_result [OF assms]
  show "0 \<le> n_blue c" "n_blue c \<le> n_total c" "0 \<le> n_total c"
    by (subst c, simp)+
  show "n_total c \<le> 10000" using length_counted [of img] by (subst c) simp
  show "0 \<le> avg_r c" "avg_r c \<le> 255 * n_total c"
    "0 \<le> avg_g c" "avg_g c \<le> 255 * n_total c"
    "0 \<le> avg_b c" "avg_b c \<le> 255 * n_total c"
    using sum_list_channel [of img _ "counted img"] by (subst c, simp)+
qed

section \<open>The analysis record\<close>

lemma analyze_image_Stats:
  assumes "analyze_image opened = Stats s"
  obtains img c where "opened = Inr img" and "scan img = Inr c" and "s = summary c"
  using assms by (auto simp add: analyze_image_def split: sum.splits)

lemma analyze_image_scan:
  "scan img = Inr c \<Longrightarrow> analyze_image (Inr img) = Stats (summary c)"
  by (simp add: analyze_image_def)

lemma summary_fields [simp]:
  "blue_pixels (summary c) = n_blue c"
  "total_pixels (summary c) = n_total c"
  "blue_ratio (summary c) = round_ndigits (ratio c) 4"
  "has_flooding (summary c) = (literal (1 / 10) < ratio c)"
  "avg_color (summary c) = (round_half_even (average c (avg_r c)),
      round_half_even (average c (avg_g c)), round_half_even (average c (avg_b c)))"
  by (simp_all add: summary_def)

lemma analyze_corrupt: "analyze_image (Inl e) = Error e"
  by (simp add: analyze_image_def)

lemma has_rgb_bands:
  assumes "has_rgb img xy"
  obtains p where "getpixel img xy = Inr (Bands p)" and "3 \<le> length p"
proof (cases "getpixel img xy")
  case (Inl e)
  with assms show ?thesis by (simp add: has_rgb_def)
next
  case (Inr px)
  with assms that show ?thesis by (cases px) (simp_all add: has_rgb_def)
qed

lemma visit_short:
  assumes "getpixel img xy = Inr (Bands p)" and "length p < 3"
  shows "visit img c xy = Inr c"
  using assms by (cases xy) (simp add: visit_def)

lemma fl_error_nonneg:
  assumes "0 \<le> x"
  shows "\<bar>fl x - x\<bar> \<le> x / 2 ^ 53"
proof (cases "x = 0")
  case True
  then show ?thesis by simp
next
  case False
  with assms have "0 < x" by simp
  then show ?thesis by (rule fl_error)
qed

lemma round_ndigits_bounds:
  assumes "0 \<le> x" and "x \<le> 1"
  shows "0 \<le> round_ndigits x 4" and "round_ndigits x 4 \<le> 1"
proof -
  have "round_ndigits 0 4 \<le> round_ndigits x 4" by (rule round_ndigits_mono [OF _ assms(1)]) simp
  then show "0 \<le> round_ndigits x 4" by simp
  have "round_ndigits x 4 \<le> round_ndigits 1 4" by (rule round_ndigits_mono [OF assms])
  then show "round_ndigits x 4 \<le> 1" by (simp add: round_ndigits_one)
qed

lemma round_ndigits_error:
  assumes "0 \<le> x" and "x \<le> 1"
  shows "\<bar>round_ndigits x 4 - x\<bar> \<le> 1 / 20000 + 1 / 2 ^ 53"
proof -
  define k where "k = round_half_even (x * 10 ^ 4)"
  define z :: rat where "z = of_int k / 10 ^ 4"
  have "0 \<le> k" unfolding k_def by (rule round_half_even_ge) (use assms(1) in simp)
  then have z0: "0 \<le> z" by (simp add: z_def)
  have "k \<le> 10 ^ 4" unfolding k_def by (rule round_half_even_le) (use assms(2) in simp)
  then have "(of_int k :: rat) \<le> of_int (10 ^ 4)" by (simp only: of_int_le_iff)
  then have z1: "z \<le> 1" by (simp add: z_def)
  have "\<bar>of_int k - x * 10 ^ 4\<bar> \<le> 1 / 2" unfolding k_def by (rule round_half_even_error)
  then have a: "\<bar>z - x\<bar> \<le> 1 / 20000" by (simp add: z_def abs_le_iff field_simps)
  have "\<bar>fl z - z\<bar> \<le> z / 2 ^ 53" by (rule fl_error_nonneg [OF z0])
  also have "\<dots> \<le> 1 / 2 ^ 53" using z1 by (simp add: divide_right_mono)
  finally have b: "\<bar>fl z - z\<bar> \<le> 1 / 2 ^ 53" .
  have "round_ndigits x 4 = fl z" by (simp add: round_ndigits_def z_def k_def)
  with a b show ?thesis by linarith
qed

lemma truediv_error:
  assumes "0 \<le> b" and "b \<le> t" and "0 < t"
  shows "\<bar>truediv b t - of_int b / of_int t\<bar> \<le> 1 / 2 ^ 53"
proof -
  have q: "(0::rat) \<le> of_int b / of_int t" using assms by simp
  have q1: "(of_int b :: rat) / of_int t \<le> 1" using assms by simp
  have "\<bar>truediv b t - of_int b / of_int t\<bar> \<le> (of_int b / of_int t) / 2 ^ 53"
    unfolding truediv_def by (rule fl_error_nonneg [OF q])
  also have "\<dots> \<le> 1 / 2 ^ 53" using q1 by (simp only: divide_right_mono zero_le_power zero_le_numeral)
  finally show ?thesis .
qed

section \<open>The batch loops\<close>




lemma zoom_loop_stdout:
  "\<exists>more. fst (zoom_loop d fs out acc) = out @ more"
proof (induction fs arbitrary: out acc)
  case Nil
  then show ?case by simp
next
  case (Cons f fs)
  show ?case
  proof (cases "zoom_parse f")
    case (Inl e)
    then show ?thesis by simp
  next
    case (Inr r)
    obtain name level where r: "r = (name, level)" by (cases r)
    define ln where "ln = (case analyze_image (Image_open d f) of
        Stats s \<Rightarrow> Zoom_row name level (blue_ratio s) (has_flooding s)
      | Error e \<Rightarrow> Zoom_error name level e)"
    define r' where "r' = \<lparr>test_name = name, water_level_ft = level,
        merged = analyze_image (Image_open d f)\<rparr>"
    have step: "zoom_loop d (f # fs) out acc = zoom_loop d fs (out @ [ln]) (acc @ [r'])"
      by (simp add: Inr r ln_def r'_def Let_def)
    from Cons.IH [of "out @ [ln]" "acc @ [r']"]
    obtain more where "fst (zoom_loop d fs (out @ [ln]) (acc @ [r'])) = (out @ [ln]) @ more" by blast
    then have "fst (zoom_loop d (f # fs) out acc) = out @ (ln # more)" unfolding step by simp
    then show ?thesis by blast
  qed
qed

lemma zoom_loop_cong:
  "Image_open d = Image_open d' \<Longrightarrow> zoom_loop d fs out acc = zoom_loop d' fs out acc"
  by (induction fs arbitrary: out acc) (simp_all add: Let_def split: sum.splits prod.splits)

lemma matching_nonempty: "matching d p \<noteq> [] \<longleftrightarrow> (\<exists>f \<in> set (listdir d). startswith f p)"
proof -
  have "matching d p \<noteq> [] \<longleftrightarrow> set (matching d p) \<noteq> {}" by simp
  also have "\<dots> \<longleftrightarrow> (\<exists>f \<in> set (listdir d). startswith f p)"
    by (auto simp add: matching_def)
  finally show ?thesis .
qed

lemma matching_filtered:
  "matching (d\<lparr>listdir := filter (\<lambda>f. startswith f p) (listdir d)\<rparr>) p = matching d p"
  by (simp add: matching_def)

lemma main_zoom:
  assumes "matching d ''zoom_'' \<noteq> []"
  shows "main d =
     (case zoom_loop d (matching d ''zoom_'')
             [Analyzing_zoom (length (matching d ''zoom_'')), Zoom_header, Rule 65] [] of
        (out, Inl e) \<Rightarrow> \<lparr>stdout = out, written = None, returned = Inl e\<rparr>
      | (out, Inr results) \<Rightarrow>
          \<lparr>stdout = out @ [Rule 65, Zoom_saved ''zoom_analysis.json''],
           written = Some (''zoom_analysis.json'', Rows results),
           returned = Inr (Rows results)\<rparr>)"
  using assms by (simp add: main_def Let_def)


lemma main_nothing:
  assumes "matching d ''zoom_'' = []" and "matching d ''elevation_'' = []"
  shows "main d = \<lparr>stdout = [No_screenshots], written = None, returned = Inr (Dict [])\<rparr>"
  using assms by (simp add: main_def Let_def)

section \<open>The sample inputs evaluated\<close>

lemma flood_samples:
  "flood_color 0 0 255" "\<not> flood_color 10 20 30" "\<not> flood_color 255 255 255"
  by (simp_all add: flood_color_exact)

lemma small_window: "window small_image = [(0, 0), (1, 0), (2, 0)]"
  by (simp add: window_product small_image_def upto_rec1)

lemma small_scan:
  "scan small_image = Inr \<lparr>n_blue = 1, n_total = 3, avg_r = 20, avg_g = 40, avg_b = 315\<rparr>"
  unfolding scan_window small_window
  by (simp add: visit_def small_image_def flood_samples)

lemma small_floats:
  "round_ndigits (truediv 1 3) 4 = literal (3333 / 10000)"
  "literal (1 / 10) < truediv 1 3"
  "round_half_even (truediv 20 3) = 7"
  "round_half_even (truediv 40 3) = 13"
  "round_half_even (truediv 315 3) = 105"
  "literal (3333 / 10000) \<noteq> truediv 1 3"
  "literal (3333 / 10000) \<noteq> 1 / 3"
  by code_simp+

lemma small_analysis: "analyze_image (Inr small_image) = Stats small_stats"
  by (simp add: analyze_image_def small_scan summary_def ratio_def average_def small_floats
      small_stats_def)

lemma small_counted: "counted small_image = [(0, 0), (1, 0), (2, 0)]"
  unfolding counted_def small_window by (simp add: has_rgb_def small_image_def)

lemma small_means:
  "mean small_image 0 = 20 / 3" "mean small_image 1 = 40 / 3" "mean small_image 2 = 105"
  unfolding mean_def small_counted by (simp_all add: channel_def small_image_def)

lemma sample_floats:
  "literal (1 / 10) < literal (3333 / 10000)"
  "round_half_even (20 / 3) = 7" "round_half_even (40 / 3) = 13" "round_half_even 105 = 105"
  by code_simp+

lemma tenth_window:
  "window tenth_image =
     [(0, 0), (1, 0), (2, 0), (3, 0), (4, 0), (5, 0), (6, 0), (7, 0), (8, 0), (9, 0)]"
  by (simp add: window_product tenth_image_def upto_rec1)

lemma tenth_scan:
  "scan tenth_image = Inr \<lparr>n_blue = 1, n_total = 10, avg_r = 2295, avg_g = 2295, avg_b = 2550\<rparr>"
  unfolding scan_window tenth_window
  by (simp add: visit_def tenth_image_def flood_samples)

lemma tenth_floats:
  "round_ndigits (truediv 1 10) 4 = literal (1 / 10)"
  "\<not> literal (1 / 10) < truediv 1 10"
  "round_half_even (truediv 2295 10) = 230"
  "round_half_even (truediv 2550 10) = 255"
  by code_simp+

lemma tenth_analysis: "analyze_image (Inr tenth_image) = Stats tenth_stats"
  by (simp add: analyze_image_def tenth_scan summary_def ratio_def average_def tenth_floats
      tenth_stats_def)

lemma two_band_window: "window two_band_image = [(0, 0)]"
  by (simp add: window_product two_band_image_def upto_rec1)

lemma two_band_scan:
  "scan two_band_image = Inr \<lparr>n_blue = 0, n_total = 0, avg_r = 0, avg_g = 0, avg_b = 0\<rparr>"
  unfolding scan_window two_band_window
  by (simp add: visit_def two_band_image_def)

lemma literal_tenth_pos: "\<not> literal (1 / 10) < 0"
  by (simp add: literal_1_10)

lemma two_band_analysis: "analyze_image (Inr two_band_image) = Stats empty_stats"
  by (simp add: analyze_image_def two_band_scan summary_def ratio_def average_def empty_stats_def
      literal_tenth_pos)

lemma gray_window: "window gray_image = [(0, 0)]"
  by (simp add: window_product gray_image_def upto_rec1)

lemma gray_scan: "scan gray_image = Inl ''object of type 'int' has no len()''"
  unfolding scan_window gray_window
  by (simp add: visit_def gray_image_def)

lemma sum_list_if:
  "sum_list (map (\<lambda>x. if P x then a else b) xs) =
     a * int (length (filter P xs)) + b * (int (length xs) - int (length (filter P xs)))"
  by (induction xs) (simp_all add: algebra_simps)

lemma boundary_window: "window boundary_image = List.product [0..32] [0..62]"
  by (simp add: window_product boundary_image_def)

lemma boundary_counted: "counted boundary_image = List.product [0..32] [0..62]"
proof -
  have "has_rgb boundary_image xy" for xy
    by (cases xy) (simp add: has_rgb_def boundary_image_def)
  then show ?thesis by (simp add: counted_def boundary_window)
qed

lemma boundary_flood:
  "is_flood boundary_image = (\<lambda>(x, y). (0 \<le> x \<and> x \<le> 12) \<and> (0 \<le> y \<and> y \<le> 15))"
  by (rule ext) (simp add: is_flood_def channel_def boundary_image_def flood_samples split: prod.splits)

lemma boundary_channels:
  "channel boundary_image 0 = (\<lambda>xy. if is_flood boundary_image xy then 0 else 255)"
  "channel boundary_image 1 = (\<lambda>xy. if is_flood boundary_image xy then 0 else 255)"
  "channel boundary_image 2 = (\<lambda>xy. if is_flood boundary_image xy then 255 else 255)"
  unfolding boundary_flood
  by (rule ext, simp add: channel_def boundary_image_def split: prod.splits)+

lemma boundary_blue:
  "length (filter (is_flood boundary_image) (counted boundary_image)) = 208"
  unfolding boundary_counted boundary_flood filter_product filter_upto by simp

lemma boundary_total: "length (counted boundary_image) = 2079"
  unfolding boundary_counted by simp

lemma boundary_scan:
  "scan boundary_image =
     Inr \<lparr>n_blue = 208, n_total = 2079, avg_r = 477105, avg_g = 477105, avg_b = 530145\<rparr>"
proof -
  have "\<forall>xy \<in> set (window boundary_image). \<exists>p. getpixel boundary_image xy = Inr (Bands p)"
    by (auto simp add: boundary_image_def)
  then obtain c where c: "scan boundary_image = Inr c" using scan_succeeds by blast
  have "c = \<lparr>n_blue = 208, n_total = 2079, avg_r = 477105, avg_g = 477105, avg_b = 530145\<rparr>"
    by (subst scan_result [OF c])
       (simp only: boundary_channels sum_list_if boundary_blue boundary_total, simp)
  with c show ?thesis by simp
qed

lemma boundary_floats:
  "round_ndigits (truediv 208 2079) 4 = literal (1 / 10)"
  "literal (1 / 10) < truediv 208 2079"
  "round_half_even (truediv 477105 2079) = 229"
  "round_half_even (truediv 530145 2079) = 255"
  by code_simp+

lemma boundary_analysis: "analyze_image (Inr boundary_image) = Stats boundary_stats"
  by (simp add: analyze_image_def boundary_scan summary_def ratio_def average_def boundary_floats
      boundary_stats_def)

lemma sample_totals:
  "0 < total_pixels small_stats" "0 < total_pixels tenth_stats" "0 < total_pixels boundary_stats"
  "total_pixels empty_stats = 0" "10 * blue_pixels tenth_stats = total_pixels tenth_stats"
  by (simp_all add: small_stats_def tenth_stats_def boundary_stats_def empty_stats_def)

lemma sample_matching:
  "matching zoom_dir ''zoom_'' = [''zoom_A_+0000ft.png'', ''zoom_B_+0010ft.png'']"
  "matching elevation_dir ''zoom_'' = []"
  "matching elevation_dir ''elevation_'' = [''elevation_+00000ft.png'', ''elevation_-00050ft.png'']"
  "matching other_dir ''zoom_'' = []"
  "matching other_dir ''elevation_'' = []"
  by code_simp+

lemma sample_parses:
  "zoom_parse ''zoom_A_+0000ft.png'' = Inr (''A'', 0)"
  "zoom_parse ''zoom_B_+0010ft.png'' = Inr (''B'', 10)"
  "elevation_parse ''elevation_+00000ft.png'' = Inr 0"
  "elevation_parse ''elevation_-00050ft.png'' = Inr (- 50)"
  by code_simp+

lemma sample_opens:
  "Image_open zoom_dir ''zoom_A_+0000ft.png'' = Inl ''cannot identify image file''"
  "Image_open zoom_dir ''zoom_B_+0010ft.png'' = Inr small_image"
  "Image_open elevation_dir ''elevation_+00000ft.png'' = Inr small_image"
  "Image_open elevation_dir ''elevation_-00050ft.png'' = Inl ''cannot identify image file''"
  by (simp_all add: zoom_dir_def elevation_dir_def corrupt_def)

lemma zoom_run:
  "main zoom_dir =
     \<lparr>stdout = [Analyzing_zoom 2, Zoom_header, Rule 65,
                 Zoom_error ''A'' 0 ''cannot identify image file'',
                 Zoom_row ''B'' 10 (literal (3333 / 10000)) True,
                 Rule 65, Zoom_saved ''zoom_analysis.json''],
      written = Some (''zoom_analysis.json'',
                      Rows [\<lparr>test_name = ''A'', water_level_ft = 0,
                               merged = Error ''cannot identify image file''\<rparr>,
                            \<lparr>test_name = ''B'', water_level_ft = 10, merged = Stats small_stats\<rparr>]),
      returned = Inr (Rows [\<lparr>test_name = ''A'', water_level_ft = 0,
                               merged = Error ''cannot identify image file''\<rparr>,
                            \<lparr>test_name = ''B'', water_level_ft = 10, merged = Stats small_stats\<rparr>])\<rparr>"
  unfolding main_def sample_matching
  by (simp add: sample_parses sample_opens analyze_corrupt small_analysis)
     (simp add: small_stats_def)


section \<open>The flood-colour predicate\<close>



section \<open>The flood threshold\<close>

text \<open>
  Claim C2, as written: \<open>has_flooding\<close> holds exactly when the \<open>blue_ratio\<close> of the
  record, the value rounded to four decimals, exceeds 0.1.  It fails: with 208 flood-coloured
  pixels out of 2079 the quotient 0.10004... is above 0.1, so \<open>has_flooding\<close> is true, and
  it rounds to 0.1, so the recorded \<open>blue_ratio\<close> is exactly 0.1.
\<close>

theorem rounded_threshold_counterexample:
  "analyze_image (Inr boundary_image) = Stats boundary_stats
   \<and> 0 < total_pixels boundary_stats
   \<and> blue_ratio boundary_stats = literal (1 / 10)
   \<and> has_flooding boundary_stats
   \<and> \<not> (has_flooding boundary_stats \<longleftrightarrow> literal (1 / 10) < blue_ratio boundary_stats)"
proof -
  have "blue_ratio boundary_stats = literal (1 / 10)" "has_flooding boundary_stats"
    by (simp_all add: boundary_stats_def)
  then show ?thesis using boundary_analysis sample_totals(3) by simp
qed

text \<open>
  Claim C2, amended.  For every successful analysis with \<open>total_pixels > 0\<close>,
  \<open>has_flooding\<close> holds exactly when the unrounded quotient \<open>blue_pixels / total_pixels\<close>
  exceeds 0.1 (line 56 tests the local variable, not the rounded field); the recorded
  \<open>blue_ratio\<close> is that quotient rounded to four decimals, and it satisfies only:
  \<open>blue_ratio > 0.1\<close> implies \<open>has_flooding\<close>, and \<open>has_flooding\<close> implies
  \<open>blue_ratio \<ge> 0.1\<close>.  When the pixels are exactly one in ten, the image is not flooded.
\<close>

theorem threshold_before_rounding:
  assumes "analyze_image opened = Stats s" and "0 < total_pixels s"
  shows "(has_flooding s \<longleftrightarrow> literal (1 / 10) < truediv (blue_pixels s) (total_pixels s))
    \<and> blue_ratio s = round_ndigits (truediv (blue_pixels s) (total_pixels s)) 4
    \<and> (literal (1 / 10) < blue_ratio s \<longrightarrow> has_flooding s)
    \<and> (has_flooding s \<longrightarrow> literal (1 / 10) \<le> blue_ratio s)
    \<and> (10 * blue_pixels s = total_pixels s \<longrightarrow> \<not> has_flooding s)"
proof -
  from assms(1) obtain img c where c: "scan img = Inr c" and s: "s = summary c"
    by (rule analyze_image_Stats)
  note b = scan_bounds [OF c]
  have t: "0 < n_total c" using assms(2) by (simp add: s)
  define x where "x = truediv (n_blue c) (n_total c)"
  have r: "ratio c = x" using t by (simp add: ratio_def x_def)
  have x0: "0 \<le> x" unfolding x_def by (rule truediv_bounds(1) [OF b(1,2) t])
  have tenth: "(0::rat) \<le> literal (1 / 10)" by (simp add: literal_1_10)
  have up: "literal (1 / 10) < round_ndigits x 4 \<Longrightarrow> literal (1 / 10) < x"
  proof (rule ccontr)
    assume a: "literal (1 / 10) < round_ndigits x 4" and "\<not> literal (1 / 10) < x"
    then have "x \<le> literal (1 / 10)" by simp
    then have "round_ndigits x 4 \<le> round_ndigits (literal (1 / 10)) 4"
      by (rule round_ndigits_mono [OF x0])
    with a show False by (simp add: round_ndigits_tenth)
  qed
  have down: "literal (1 / 10) < x \<Longrightarrow> literal (1 / 10) \<le> round_ndigits x 4"
  proof -
    assume "literal (1 / 10) < x"
    then have "literal (1 / 10) \<le> x" by simp
    then have "round_ndigits (literal (1 / 10)) 4 \<le> round_ndigits x 4"
      by (rule round_ndigits_mono [OF tenth])
    then show ?thesis by (simp add: round_ndigits_tenth)
  qed
  have tie: "10 * n_blue c = n_total c \<Longrightarrow> \<not> literal (1 / 10) < x"
    using truediv_gt_tenth [OF b(1) t b(4)] by (simp add: x_def)
  show ?thesis using up down tie by (simp add: s r x_def [symmetric])
qed

text \<open>The theorem at the sample image (one pixel in three) and at the image with one pixel in ten.\<close>

theorem threshold_before_rounding_witness:
  "analyze_image (Inr small_image) = Stats small_stats \<and> 0 < total_pixels small_stats
   \<and> literal (1 / 10) < blue_ratio small_stats \<and> has_flooding small_stats
   \<and> analyze_image (Inr tenth_image) = Stats tenth_stats \<and> 0 < total_pixels tenth_stats
   \<and> 10 * blue_pixels tenth_stats = total_pixels tenth_stats \<and> \<not> has_flooding tenth_stats"
proof -
  note a = threshold_before_rounding [OF small_analysis sample_totals(1)]
  note b = threshold_before_rounding [OF tenth_analysis sample_totals(2)]
  have r: "literal (1 / 10) < blue_ratio small_stats"
    by (simp add: small_stats_def sample_floats)
  with a have "has_flooding small_stats" by blast
  moreover from b sample_totals(5) have "\<not> has_flooding tenth_stats" by blast
  ultimately show ?thesis using r small_analysis tenth_analysis sample_totals by blast
qed

section \<open>Errors stay inside the classifier and the batch\<close>



section \<open>The sample window\<close>

text \<open>
  Claim C4.  For every image of width \<open>w\<close> and height \<open>h\<close> whose pixels all expose at
  least three channels, the analysis succeeds and \<open>total_pixels\<close> is the number of integer
  coordinates \<open>(x, y)\<close> with \<open>w // 2 - 50 \<le> x < w // 2 + 50\<close> and
  \<open>h // 2 - 50 \<le> y < h // 2 + 50\<close> that lie in \<open>[0, w) \<times> [0, h)\<close>, which is
  \<open>min(w, 100) * min(h, 100)\<close>; for a 10 by 10 image it is 100, not 10000.
\<close>

theorem total_pixels_window:
  assumes "\<forall>xy. inside img xy \<longrightarrow> has_rgb img xy"
  shows "\<exists>s. analyze_image (Inr img) = Stats s
    \<and> total_pixels s =
        int (card {(x, y). int (width img) div 2 - 50 \<le> x \<and> x < int (width img) div 2 + 50
                         \<and> int (height img) div 2 - 50 \<le> y \<and> y < int (height img) div 2 + 50
                         \<and> 0 \<le> x \<and> x < int (width img) \<and> 0 \<le> y \<and> y < int (height img)})
    \<and> total_pixels s = int (min (width img) 100 * min (height img) 100)"
proof -
  have rgb: "\<forall>xy \<in> set (window img). has_rgb img xy"
    using assms window_inside by blast
  then have "\<forall>xy \<in> set (window img). \<exists>p. getpixel img xy = Inr (Bands p)"
    by (meson has_rgb_bands)
  then obtain c where c: "scan img = Inr c" using scan_succeeds by blast
  have all: "counted img = window img" using rgb by (simp add: counted_def)
  have n: "n_total c = int (length (window img))" by (subst scan_result [OF c]) (simp add: all)
  have "card (set (window img)) = length (window img)"
    by (rule distinct_card [OF distinct_window])
  then have "n_total c = int (card (set (window img)))" by (simp add: n)
  then show ?thesis
    using c n by (simp add: analyze_image_def set_window length_window)
qed

text \<open>The theorem at the 10 by 10 image.\<close>

theorem total_pixels_window_witness:
  "\<exists>s. analyze_image (Inr blue_square) = Stats s \<and> total_pixels s = 100"
proof -
  have "\<forall>xy. inside blue_square xy \<longrightarrow> has_rgb blue_square xy"
    by (simp add: has_rgb_def blue_square_def)
  from total_pixels_window [OF this] obtain s
    where "analyze_image (Inr blue_square) = Stats s"
      and "total_pixels s = int (min (width blue_square) 100 * min (height blue_square) 100)"
    by blast
  moreover have "int (min (width blue_square) 100 * min (height blue_square) 100) = 100"
    by (simp add: blue_square_def)
  ultimately show ?thesis by auto
qed

section \<open>The invariant of the success record\<close>

text \<open>
  Claim C5, as written: every success record has \<open>blue_ratio = blue_pixels / total_pixels\<close>
  when \<open>total_pixels > 0\<close>.  It fails for the field of the record, which line 54 rounds to
  four decimals: with one flood-coloured pixel out of three the record holds 0.3333, which is
  neither the float \<open>1 / 3\<close> nor the rational one third.
\<close>

theorem unrounded_ratio_counterexample:
  "analyze_image (Inr small_image) = Stats small_stats
   \<and> 0 < total_pixels small_stats
   \<and> blue_ratio small_stats \<noteq> truediv (blue_pixels small_stats) (total_pixels small_stats)
   \<and> blue_ratio small_stats \<noteq> of_int (blue_pixels small_stats) / of_int (total_pixels small_stats)"
proof -
  have "blue_ratio small_stats \<noteq> truediv (blue_pixels small_stats) (total_pixels small_stats)"
    using small_floats(6) by (simp add: small_stats_def)
  moreover have "blue_ratio small_stats \<noteq> of_int (blue_pixels small_stats) / of_int (total_pixels small_stats)"
    using small_floats(7) by (simp add: small_stats_def)
  ultimately show ?thesis using small_analysis sample_totals(1) by blast
qed

text \<open>
  Claim C5, amended.  Every success record satisfies \<open>0 \<le> blue_pixels \<le> total_pixels\<close>
  and \<open>0 \<le> blue_ratio \<le> 1\<close>; when \<open>total_pixels > 0\<close> its \<open>blue_ratio\<close> is
  \<open>blue_pixels / total_pixels\<close> rounded to four decimals, hence within 0.00005 (and a
  float rounding error below \<open>10\<^sup>-\<^sup>1\<^sup>5\<close>) of the exact quotient; when \<open>total_pixels = 0\<close>
  it is 0.
\<close>

theorem color_stats_invariant:
  assumes "analyze_image opened = Stats s"
  shows "0 \<le> blue_pixels s \<and> blue_pixels s \<le> total_pixels s
    \<and> 0 \<le> blue_ratio s \<and> blue_ratio s \<le> 1
    \<and> (0 < total_pixels s \<longrightarrow>
          blue_ratio s = round_ndigits (truediv (blue_pixels s) (total_pixels s)) 4
          \<and> \<bar>blue_ratio s - of_int (blue_pixels s) / of_int (total_pixels s)\<bar> \<le> 1 / 20000 + 1 / 10 ^ 15)
    \<and> (total_pixels s = 0 \<longrightarrow> blue_ratio s = 0)"
proof -
  from assms(1) obtain img c where c: "scan img = Inr c" and s: "s = summary c"
    by (rule analyze_image_Stats)
  note b = scan_bounds [OF c]
  have r: "0 \<le> ratio c \<and> ratio c \<le> 1"
    using truediv_bounds [OF b(1,2)] by (simp add: ratio_def)
  have "0 \<le> round_ndigits (ratio c) 4" "round_ndigits (ratio c) 4 \<le> 1"
    using round_ndigits_bounds r by simp_all
  moreover have "\<bar>round_ndigits (ratio c) 4 - of_int (n_blue c) / of_int (n_total c)\<bar>
      \<le> 1 / 20000 + 1 / 10 ^ 15" if t: "0 < n_total c"
  proof -
    have x: "ratio c = truediv (n_blue c) (n_total c)" using t by (simp add: ratio_def)
    have "\<bar>round_ndigits (ratio c) 4 - ratio c\<bar> \<le> 1 / 20000 + 1 / 2 ^ 53"
      using round_ndigits_error r by simp
    moreover have "\<bar>ratio c - of_int (n_blue c) / of_int (n_total c)\<bar> \<le> 1 / 2 ^ 53"
      unfolding x by (rule truediv_error [OF b(1,2) t])
    moreover have "(1::rat) / 2 ^ 53 + 1 / 2 ^ 53 \<le> 1 / 10 ^ 15" by simp
    ultimately show ?thesis by linarith
  qed
  ultimately show ?thesis using b(1,2) by (simp add: s) (simp add: ratio_def)
qed

text \<open>The theorem at the sample image and at the two-band image, where no pixel is counted.\<close>

theorem color_stats_invariant_witness:
  "analyze_image (Inr small_image) = Stats small_stats \<and> 0 < total_pixels small_stats
   \<and> blue_ratio small_stats = round_ndigits (truediv (blue_pixels small_stats) (total_pixels small_stats)) 4
   \<and> \<bar>blue_ratio small_stats - of_int (blue_pixels small_stats) / of_int (total_pixels small_stats)\<bar>
       \<le> 1 / 20000 + 1 / 10 ^ 15
   \<and> 0 \<le> blue_ratio small_stats \<and> blue_ratio small_stats \<le> 1
   \<and> analyze_image (Inr two_band_image) = Stats empty_stats \<and> total_pixels empty_stats = 0
   \<and> blue_ratio empty_stats = 0"
  using color_stats_invariant [OF small_analysis] color_stats_invariant [OF two_band_analysis]
    small_analysis two_band_analysis sample_totals(1,4)
  by blast

section \<open>File names\<close>

text \<open>
  Claim C6.  In zoom mode \<open>zoom_Global_Full_+0000ft.png\<close> parses to the test name
  \<open>Global_Full\<close> with water level 0 and \<open>zoom_Local_Coast_-00100ft.png\<close> to
  \<open>Local_Coast\<close> with water level -100; in elevation mode \<open>elevation_-00050ft.png\<close>
  parses to the elevation -50 and \<open>elevation_+00000ft.png\<close> to 0.
\<close>

theorem filename_examples:
  "zoom_parse ''zoom_Global_Full_+0000ft.png'' = Inr (''Global_Full'', 0)
   \<and> zoom_parse ''zoom_Local_Coast_-00100ft.png'' = Inr (''Local_Coast'', - 100)
   \<and> elevation_parse ''elevation_-00050ft.png'' = Inr (- 50)
   \<and> elevation_parse ''elevation_+00000ft.png'' = Inr 0"
  by code_simp

section \<open>Mode selection\<close>

text \<open>
  Claim C7.  If any name in the directory starts with \<open>zoom_\<close>, the batch runs in zoom
  mode whatever else is present: its first line announces the zoom files, the run is the same
  as on the directory with only the zoom files listed, and it either ends in an exception
  with nothing written or returns a list of rows and writes it to \<open>zoom_analysis.json\<close>.
  If no name starts with \<open>zoom_\<close> or \<open>elevation_\<close>, the run prints
  \<open>No screenshots found!\<close>, returns the empty dictionary and writes no file.
\<close>

theorem mode_selection:
  "((\<exists>f \<in> set (listdir d). startswith f ''zoom_'') \<longrightarrow>
       hd (stdout (main d)) = Analyzing_zoom (length (matching d ''zoom_''))
       \<and> main d = main (d\<lparr>listdir := filter (\<lambda>f. startswith f ''zoom_'') (listdir d)\<rparr>)
       \<and> (case returned (main d) of
             Inl e \<Rightarrow> written (main d) = None
           | Inr res \<Rightarrow> (\<exists>rs. res = Rows rs) \<and> written (main d) = Some (''zoom_analysis.json'', res)))
   \<and> ((\<forall>f \<in> set (listdir d). \<not> startswith f ''zoom_'' \<and> \<not> startswith f ''elevation_'') \<longrightarrow>
       main d = \<lparr>stdout = [No_screenshots], written = None, returned = Inr (Dict [])\<rparr>)"
proof (intro conjI impI)
  assume "\<exists>f \<in> set (listdir d). startswith f ''zoom_''"
  then have z: "matching d ''zoom_'' \<noteq> []" by (simp add: matching_nonempty)
  define start where "start = [Analyzing_zoom (length (matching d ''zoom_'')), Zoom_header, Rule 65]"
  obtain out r where l: "zoom_loop d (matching d ''zoom_'') start [] = (out, r)"
    by (cases "zoom_loop d (matching d ''zoom_'') start []")
  from zoom_loop_stdout [of d "matching d ''zoom_''" start "[]"] l
  obtain more where out: "out = start @ more" by auto
  have m: "main d = (case r of
        Inl e \<Rightarrow> \<lparr>stdout = out, written = None, returned = Inl e\<rparr>
      | Inr results \<Rightarrow>
          \<lparr>stdout = out @ [Rule 65, Zoom_saved ''zoom_analysis.json''],
           written = Some (''zoom_analysis.json'', Rows results),
           returned = Inr (Rows results)\<rparr>)"
    by (simp add: main_zoom [OF z] l [unfolded start_def])
  show "hd (stdout (main d)) = Analyzing_zoom (length (matching d ''zoom_''))"
    by (cases r) (simp_all add: m out start_def)
  show "case returned (main d) of
          Inl e \<Rightarrow> written (main d) = None
        | Inr res \<Rightarrow> (\<exists>rs. res = Rows rs) \<and> written (main d) = Some (''zoom_analysis.json'', res)"
    by (cases r) (simp_all add: m)
  define d' where "d' = d\<lparr>listdir := filter (\<lambda>f. startswith f ''zoom_'') (listdir d)\<rparr>"
  have same: "matching d' ''zoom_'' = matching d ''zoom_''"
    unfolding d'_def by (rule matching_filtered)
  have "Image_open d = Image_open d'" by (simp add: d'_def)
  then have "zoom_loop d (matching d ''zoom_'') start [] = zoom_loop d' (matching d ''zoom_'') start []"
    by (rule zoom_loop_cong)
  then have "main d = main d'"
    using z by (simp add: main_zoom same start_def)
  then show "main d = main (d\<lparr>listdir := filter (\<lambda>f. startswith f ''zoom_'') (listdir d)\<rparr>)"
    by (simp add: d'_def)
next
  assume a: "\<forall>f \<in> set (listdir d). \<not> startswith f ''zoom_'' \<and> \<not> startswith f ''elevation_''"
  have "matching d ''zoom_'' = []" using a matching_nonempty [of d "''zoom_''"] by blast
  moreover have "matching d ''elevation_'' = []" using a matching_nonempty [of d "''elevation_''"] by blast
  ultimately show "main d = \<lparr>stdout = [No_screenshots], written = None, returned = Inr (Dict [])\<rparr>"
    by (rule main_nothing)
qed

text \<open>
  The theorem at a directory holding two zoom files and an elevation file, and at a
  directory with no matching name.
\<close>

theorem mode_selection_witness:
  "startswith ''zoom_B_+0010ft.png'' ''zoom_''
   \<and> startswith ''elevation_+00000ft.png'' ''elevation_''
   \<and> listdir zoom_dir = [''zoom_B_+0010ft.png'', ''elevation_+00000ft.png'', ''zoom_A_+0000ft.png'']
   \<and> hd (stdout (main zoom_dir)) = Analyzing_zoom 2
   \<and> written (main zoom_dir) = Some (''zoom_analysis.json'',
        Rows [\<lparr>test_name = ''A'', water_level_ft = 0, merged = Error ''cannot identify image file''\<rparr>,
              \<lparr>test_name = ''B'', water_level_ft = 10, merged = Stats small_stats\<rparr>])
   \<and> listdir other_dir = [''notes.txt'', ''debug_initial.png'']
   \<and> main other_dir = \<lparr>stdout = [No_screenshots], written = None, returned = Inr (Dict [])\<rparr>"
proof -
  have z: "startswith ''zoom_B_+0010ft.png'' ''zoom_''"
    and e: "startswith ''elevation_+00000ft.png'' ''elevation_''"
    and n: "\<not> startswith ''notes.txt'' ''zoom_''" "\<not> startswith ''notes.txt'' ''elevation_''"
      "\<not> startswith ''debug_initial.png'' ''zoom_''" "\<not> startswith ''debug_initial.png'' ''elevation_''"
    by (simp_all add: startswith_def)
  have lz: "listdir zoom_dir = [''zoom_B_+0010ft.png'', ''elevation_+00000ft.png'', ''zoom_A_+0000ft.png'']"
    by (simp add: zoom_dir_def)
  have lo: "listdir other_dir = [''notes.txt'', ''debug_initial.png'']"
    by (simp add: other_dir_def)
  have ex: "\<exists>f \<in> set (listdir zoom_dir). startswith f ''zoom_''"
    using z by (simp add: lz)
  have no: "\<forall>f \<in> set (listdir other_dir). \<not> startswith f ''zoom_'' \<and> \<not> startswith f ''elevation_''"
    using n by (simp add: lo)
  from mode_selection [of zoom_dir] ex
  have "hd (stdout (main zoom_dir)) = Analyzing_zoom (length (matching zoom_dir ''zoom_''))"
    by blast
  then have 1: "hd (stdout (main zoom_dir)) = Analyzing_zoom 2" by (simp add: sample_matching)
  from mode_selection [of other_dir] no
  have 2: "main other_dir = \<lparr>stdout = [No_screenshots], written = None, returned = Inr (Dict [])\<rparr>"
    by blast
  show ?thesis using z e lz lo 1 2 by (simp add: zoom_run)
qed

section \<open>Pixels with fewer than three channels\<close>

text \<open>
  Claim C8.  A pixel that exposes fewer than three channels is to be skipped, and the
  analysis is still to succeed.  A pixel that is a tuple of fewer than three bands is skipped
  (\<open>visit_short\<close>, \<open>two_band_analysis\<close>).  A single-band image is not: \<open>getpixel\<close>
  returns a number, \<open>len(pixel)\<close> raises \<open>TypeError\<close>, and the analysis of the 1 by 1
  grey-scale image is the error record.
\<close>

theorem single_band_error:
  "analyze_image (Inr gray_image) = Error ''object of type 'int' has no len()''"
  by (simp add: analyze_image_def gray_scan)

section \<open>The average colour\<close>

text \<open>
  Claim C9.  For every successful analysis with \<open>total_pixels > 0\<close>, \<open>avg_color\<close> is the
  triple of the exact per-channel means (sum of the channel values of the counted pixels
  divided by their number, as rationals), each rounded to the nearest integer: the float
  division of lines 44 to 46 does not change the rounded value, and each component is within
  one half of its exact mean.
\<close>

theorem avg_color_rounded_means:
  assumes "analyze_image (Inr img) = Stats s" and "0 < total_pixels s"
  shows "total_pixels s = int (length (counted img))
    \<and> avg_color s = (round_half_even (mean img 0), round_half_even (mean img 1),
                      round_half_even (mean img 2))
    \<and> \<bar>of_int (fst (avg_color s)) - mean img 0\<bar> \<le> 1 / 2
    \<and> \<bar>of_int (fst (snd (avg_color s))) - mean img 1\<bar> \<le> 1 / 2
    \<and> \<bar>of_int (snd (snd (avg_color s))) - mean img 2\<bar> \<le> 1 / 2"
proof -
  from assms(1) obtain c where c: "scan img = Inr c" and s: "s = summary c"
    by (auto simp add: analyze_image_def split: sum.splits)
  note b = scan_bounds [OF c]
  note f = scan_result [OF c]
  have t: "0 < n_total c" using assms(2) by (simp add: s)
  have n: "n_total c = int (length (counted img))" by (subst f) simp
  have r: "round_half_even (average c (avg_r c)) = round_half_even (mean img 0)"
  proof -
    have "round_half_even (average c (avg_r c)) = round_half_even (of_int (avg_r c) / of_int (n_total c))"
      using t round_truediv [OF b(5,6) t b(4)] by (simp add: average_def)
    also have "of_int (avg_r c) / of_int (n_total c) = mean img 0"
      unfolding mean_def by (subst (1 2) f) simp
    finally show ?thesis .
  qed
  have g: "round_half_even (average c (avg_g c)) = round_half_even (mean img 1)"
  proof -
    have "round_half_even (average c (avg_g c)) = round_half_even (of_int (avg_g c) / of_int (n_total c))"
      using t round_truediv [OF b(7,8) t b(4)] by (simp add: average_def)
    also have "of_int (avg_g c) / of_int (n_total c) = mean img 1"
      unfolding mean_def by (subst (1 2) f) simp
    finally show ?thesis .
  qed
  have bl: "round_half_even (average c (avg_b c)) = round_half_even (mean img 2)"
  proof -
    have "round_half_even (average c (avg_b c)) = round_half_even (of_int (avg_b c) / of_int (n_total c))"
      using t round_truediv [OF b(9,10) t b(4)] by (simp add: average_def)
    also have "of_int (avg_b c) / of_int (n_total c) = mean img 2"
      unfolding mean_def by (subst (1 2) f) simp
    finally show ?thesis .
  qed
  show ?thesis
    using round_half_even_error [of "mean img 0"] round_half_even_error [of "mean img 1"]
      round_half_even_error [of "mean img 2"]
    by (simp add: s n r g bl)
qed

text \<open>The theorem at the sample image, whose means are 20/3, 40/3 and 105.\<close>

theorem avg_color_rounded_means_witness:
  "analyze_image (Inr small_image) = Stats small_stats \<and> 0 < total_pixels small_stats
   \<and> avg_color small_stats = (round_half_even (20 / 3), round_half_even (40 / 3), round_half_even 105)
   \<and> avg_color small_stats = (7, 13, 105)"
proof -
  from avg_color_rounded_means [OF small_analysis sample_totals(1)]
  have "avg_color small_stats = (round_half_even (20 / 3), round_half_even (40 / 3), round_half_even 105)"
    by (simp only: small_means)
  moreover have "avg_color small_stats = (7, 13, 105)" by (simp add: small_stats_def)
  ultimately show ?thesis using small_analysis sample_totals(1) by blast
qed

section \<open>The threshold on the exact quotient\<close>

text \<open>
  Claim C10.  For every successful analysis with \<open>total_pixels > 0\<close>, \<open>has_flooding\<close>
  equals the exact comparison \<open>blue_pixels / total_pixels > 1/10\<close> on the unrounded
  quotient, independently of the rounded \<open>blue_ratio\<close> reported beside it.
\<close>

theorem has_flooding_exact:
  assumes "analyze_image opened = Stats s" and "0 < total_pixels s"
  shows "has_flooding s \<longleftrightarrow> (1 / 10 :: rat) < of_int (blue_pixels s) / of_int (total_pixels s)"
proof -
  from assms(1) obtain img c where c: "scan img = Inr c" and s: "s = summary c"
    by (rule analyze_image_Stats)
  note b = scan_bounds [OF c]
  have t: "0 < n_total c" using assms(2) by (simp add: s)
  have "has_flooding s \<longleftrightarrow> literal (1 / 10) < truediv (n_blue c) (n_total c)"
    using t by (simp add: s ratio_def)
  also have "\<dots> \<longleftrightarrow> n_total c < 10 * n_blue c"
    by (rule truediv_gt_tenth [OF b(1) t b(4)])
  also have "\<dots> \<longleftrightarrow> (of_int (n_total c) :: rat) < of_int (10 * n_blue c)"
    by (simp only: of_int_less_iff)
  also have "\<dots> \<longleftrightarrow> (1 / 10 :: rat) < of_int (n_blue c) / of_int (n_total c)"
    using t by (simp add: field_simps)
  finally show ?thesis by (simp add: s)
qed

text \<open>
  The theorem at the image with 208 flood-coloured pixels out of 2079: flooded, although the
  recorded ratio is 0.1.
\<close>

theorem has_flooding_exact_witness:
  "analyze_image (Inr boundary_image) = Stats boundary_stats \<and> 0 < total_pixels boundary_stats
   \<and> has_flooding boundary_stats
   \<and> (1 / 10 :: rat) < of_int (blue_pixels boundary_stats) / of_int (total_pixels boundary_stats)
   \<and> blue_ratio boundary_stats = literal (1 / 10)"
proof -
  have "has_flooding boundary_stats" "blue_ratio boundary_stats = literal (1 / 10)"
    by (simp_all add: boundary_stats_def)
  then show ?thesis
    using has_flooding_exact [OF boundary_analysis sample_totals(3)] boundary_analysis sample_totals(3)
    by blast
qed

end
